theory Spec2Isabelle
  imports
    Main
    "HOL-Library.Char_ord"
    "HOL-Library.List_Lexorder"
    "HOL-Library.AList"
    "HOL-Library.Word"
begin

section \<open>Schema federation: the introspection model (federation/schema.go)\<close>

text \<open>
  \<^verbatim>\<open>type MergeMode string\<close> with the two constants \<^verbatim>\<open>Union = "union"\<close> and
  \<^verbatim>\<open>Intersection = "intersection"\<close>. The code only ever tests \<^verbatim>\<open>mode == Union\<close>, so every
  other string behaves as \<^verbatim>\<open>Intersection\<close> does.
\<close>

type_synonym MergeMode = string

definition Union_mode :: MergeMode where
  "Union_mode = ''union''"

definition Intersection :: MergeMode where
  "Intersection = ''intersection''"

text \<open>
  \<^verbatim>\<open>*introspectionTypeRef\<close>: a nullable pointer to a struct \<^verbatim>\<open>{Kind, Name, OfType}\<close>.
  \<open>nil_ref\<close> is the nil pointer; \<open>TypeRef k n t\<close> points to a struct with
  \<^verbatim>\<open>Kind = k\<close>, \<^verbatim>\<open>Name = n\<close>, \<^verbatim>\<open>OfType = t\<close>.
\<close>

datatype introspectionTypeRef =
    nil_ref
  | TypeRef (ref_Kind: string) (ref_Name: string) (ref_OfType: introspectionTypeRef)

record introspectionInputField =
  in_Name :: string
  in_Type :: introspectionTypeRef

record introspectionField =
  fld_Name :: string
  fld_Type :: introspectionTypeRef
  fld_Args :: "introspectionInputField list"

record introspectionEnumValue =
  ev_Name :: string

record introspectionType =
  ty_Name :: string
  ty_Kind :: string
  Fields :: "introspectionField list"
  InputFields :: "introspectionInputField list"
  PossibleTypes :: "introspectionTypeRef list"
  EnumValues :: "introspectionEnumValue list"

record introspectionSchema =
  Types :: "introspectionType list"

record introspectionQueryResult =
  Schema :: introspectionSchema

text \<open>
  Errors as values, one constructor per \<^verbatim>\<open>errors.New\<close> / \<^verbatim>\<open>fmt.Errorf\<close> site of the merger,
  carrying the arguments of the format string:
  \<^item> \<open>KindsDiffer\<close>: \<^verbatim>\<open>"kinds %s and %s differ", a.Name, b.Kind\<close>
  \<^item> \<open>TypesMustBeIdentical\<close>: \<^verbatim>\<open>"types must be identical"\<close>
  \<^item> \<open>UnknownTypeKind\<close>: \<^verbatim>\<open>"unknown type kind"\<close>
  \<^item> \<open>NewFieldNonNull\<close>: \<^verbatim>\<open>"new field %s is non-null: %v", name, p[0].Type\<close>
  \<^item> \<open>IncompatibleInputTypes\<close>: \<^verbatim>\<open>"field %s has incompatible types %s and %s: %v"\<close> (mergeInputFields)
  \<^item> \<open>IncompatibleFieldTypes\<close>: \<^verbatim>\<open>"field %s has incompatible types %v and %v: %v"\<close> (mergeFields)
  \<^item> \<open>IncompatibleArguments\<close>: \<^verbatim>\<open>"field %s has incompatible arguments: %v"\<close>
  \<^item> \<open>ConflictingKinds\<close>: \<^verbatim>\<open>"conflicting kinds %s and %s"\<close>
  \<^item> \<open>MergingInputFields\<close>, \<open>MergingFields\<close>, \<open>MergingPossibleTypes\<close>, \<open>MergingEnumValues\<close>:
    \<^verbatim>\<open>"merging input fields: %v"\<close> and its three siblings
  \<^item> \<open>UnknownKind\<close>: \<^verbatim>\<open>"unknown kind %s"\<close>
  \<^item> \<open>CantMergeType\<close>: \<^verbatim>\<open>"can't merge type %s: %v"\<close>
  \<^item> \<open>NoSchemas\<close>: \<^verbatim>\<open>"no schemas"\<close>
  \<^item> \<open>Panic\<close>: not an error value but a runtime panic (a nil pointer dereferenced, an index
    out of range); it is never wrapped and never caught.
\<close>

datatype error =
    Panic
  | KindsDiffer string string
  | TypesMustBeIdentical
  | UnknownTypeKind
  | NewFieldNonNull string introspectionTypeRef
  | IncompatibleInputTypes string introspectionTypeRef introspectionTypeRef error
  | IncompatibleFieldTypes string introspectionField introspectionField error
  | IncompatibleArguments string error
  | ConflictingKinds string string
  | MergingInputFields error
  | MergingFields error
  | MergingPossibleTypes error
  | MergingEnumValues error
  | UnknownKind string
  | CantMergeType string error
  | NoSchemas

subsection \<open>mergeTypeRefs\<close>

text \<open>
  The two \<^verbatim>\<open>.Kind\<close> reads at the top dereference \<^verbatim>\<open>a\<close> and \<^verbatim>\<open>b\<close>: a nil pointer panics.
  After the unwrapping the function recurses on the unwrapped pair when either side was
  \<^verbatim>\<open>NON_NULL\<close>; otherwise it compares kinds and, for \<^verbatim>\<open>LIST\<close>, recurses on the elements.
\<close>

function mergeTypeRefs ::
  "introspectionTypeRef \<Rightarrow> introspectionTypeRef \<Rightarrow> bool \<Rightarrow> error + introspectionTypeRef" where
  "mergeTypeRefs nil_ref b isInput = Inl Panic"
| "mergeTypeRefs (TypeRef ak an ao) nil_ref isInput = Inl Panic"
| "mergeTypeRefs (TypeRef ak an ao) (TypeRef bk bn bo) isInput =
     (let aNonNil = (ak = ''NON_NULL'');
          a = (if aNonNil then ao else TypeRef ak an ao);
          bNonNil = (bk = ''NON_NULL'');
          b = (if bNonNil then bo else TypeRef bk bn bo)
      in if aNonNil \<or> bNonNil then
           (case mergeTypeRefs a b isInput of
              Inl err \<Rightarrow> Inl err
            | Inr merged \<Rightarrow>
                if isInput \<or> (aNonNil \<and> bNonNil)
                then Inr (TypeRef ''NON_NULL'' [] merged)
                else Inr merged)
         else if ak \<noteq> bk then Inl (KindsDiffer an bk)
         else if ak \<in> set [''SCALAR'', ''ENUM'', ''INPUT_OBJECT'', ''UNION'', ''OBJECT''] then
           (if an \<noteq> bn then Inl TypesMustBeIdentical
            else Inr (TypeRef ak an nil_ref))
         else if ak = ''LIST'' then
           (case mergeTypeRefs ao bo isInput of
              Inl err \<Rightarrow> Inl err
            | Inr inner \<Rightarrow> Inr (TypeRef ''LIST'' [] inner))
         else Inl UnknownTypeKind)"
  by pat_completeness auto
termination
  by (relation "measure (\<lambda>(a, b, isInput). size a + size b)") (auto split: if_splits)

declare mergeTypeRefs.simps(3) [simp del]

text \<open>\<^verbatim>\<open>t.Kind == "NON_NULL"\<close> and \<^verbatim>\<open>t.Kind == "LIST"\<close> for a reference that is not nil.\<close>

fun isNonNull :: "introspectionTypeRef \<Rightarrow> bool" where
  "isNonNull nil_ref = False"
| "isNonNull (TypeRef k n t) = (k = ''NON_NULL'')"

fun isList :: "introspectionTypeRef \<Rightarrow> bool" where
  "isList nil_ref = False"
| "isList (TypeRef k n t) = (k = ''LIST'')"

fun unwrapNonNull :: "introspectionTypeRef \<Rightarrow> introspectionTypeRef" where
  "unwrapNonNull nil_ref = nil_ref"
| "unwrapNonNull (TypeRef k n t) = (if k = ''NON_NULL'' then t else TypeRef k n t)"

text \<open>
  The nullability rule of the specification (P7), read at every level of nesting: the merged
  reference is \<^verbatim>\<open>NON_NULL\<close> iff either side is (input position) or both sides are (output
  position); below a \<^verbatim>\<open>NON_NULL\<close> wrapper the rule holds again of the unwrapped references,
  and below two \<^verbatim>\<open>LIST\<close>s it holds again of the element references.
\<close>

function nullabilityRule ::
  "bool \<Rightarrow> introspectionTypeRef \<Rightarrow> introspectionTypeRef \<Rightarrow> introspectionTypeRef \<Rightarrow> bool" where
  "nullabilityRule isInput a b r =
     ((isNonNull r \<longleftrightarrow>
         (if isInput then isNonNull a \<or> isNonNull b else isNonNull a \<and> isNonNull b)) \<and>
      (if isNonNull a \<or> isNonNull b then
         nullabilityRule isInput (unwrapNonNull a) (unwrapNonNull b) (unwrapNonNull r)
       else if isList a \<and> isList b then
         isList r \<and> nullabilityRule isInput (ref_OfType a) (ref_OfType b) (ref_OfType r)
       else True))"
  by pat_completeness auto
termination
proof (relation "measure (\<lambda>(isInput, a, b, r). size a + size b)")
  show "wf (measure (\<lambda>(isInput, a, b, r). size a + size b))"
    by simp
next
  fix isInput :: bool and a b r :: introspectionTypeRef
  assume "isNonNull a \<or> isNonNull b"
  then show "((isInput, unwrapNonNull a, unwrapNonNull b, unwrapNonNull r), (isInput, a, b, r))
      \<in> measure (\<lambda>(isInput, a, b, r). size a + size b)"
    by (cases a; cases b) auto
next
  fix isInput :: bool and a b r :: introspectionTypeRef
  assume "isList a \<and> isList b"
  then show "((isInput, ref_OfType a, ref_OfType b, ref_OfType r), (isInput, a, b, r))
      \<in> measure (\<lambda>(isInput, a, b, r). size a + size b)"
    by (cases a; cases b) auto
qed

declare nullabilityRule.simps [simp del]

subsection \<open>The grouping pattern shared by the five mergers\<close>

text \<open>
  Every merger starts the same way:
  \<^verbatim>\<open>
  types := make(map[string][]T)
  for _, a := range a { types[a.Name] = append(types[a.Name], a) }
  for _, b := range b { types[b.Name] = append(types[b.Name], b) }
  names := make([]string, 0, len(types))
  for name := range types { names = append(names, name) }
  sort.Strings(names)
  \<close>
  The Go map is an association list with one entry per key; reading a missing key gives
  the nil slice. \<^verbatim>\<open>sort.Strings\<close> orders byte strings lexicographically, which is the order of
  \<open>char list\<close> here.
\<close>

definition types_get :: "(string \<times> 'a list) list \<Rightarrow> string \<Rightarrow> 'a list" where
  "types_get types name = (case map_of types name of None \<Rightarrow> [] | Some p \<Rightarrow> p)"

definition types_append :: "('a \<Rightarrow> string) \<Rightarrow> (string \<times> 'a list) list \<Rightarrow> 'a \<Rightarrow> (string \<times> 'a list) list" where
  "types_append nm types x = AList.update (nm x) (types_get types (nm x) @ [x]) types"

definition group_by_name :: "('a \<Rightarrow> string) \<Rightarrow> 'a list \<Rightarrow> 'a list \<Rightarrow> (string \<times> 'a list) list" where
  "group_by_name nm a b = foldl (types_append nm) (foldl (types_append nm) [] a) b"

definition sorted_names :: "(string \<times> 'a list) list \<Rightarrow> string list" where
  "sorted_names types = sort (map fst types)"

text \<open>
  The loop \<^verbatim>\<open>for _, name := range names { p := types[name]; ... }\<close>: the body either fails,
  which returns from the merger at once, or appends some elements to \<^verbatim>\<open>merged\<close>.
\<close>

fun merge_loop ::
  "(string \<Rightarrow> 'a list \<Rightarrow> error + 'b list) \<Rightarrow> (string \<times> 'a list) list \<Rightarrow> string list \<Rightarrow> 'b list
    \<Rightarrow> error + 'b list" where
  "merge_loop body types [] merged = Inr merged"
| "merge_loop body types (name # names) merged =
     (case body name (types_get types name) of
        Inl err \<Rightarrow> Inl err
      | Inr xs \<Rightarrow> merge_loop body types names (merged @ xs))"

definition merge_by_name ::
  "('a \<Rightarrow> string) \<Rightarrow> (string \<Rightarrow> 'a list \<Rightarrow> error + 'b list) \<Rightarrow> 'a list \<Rightarrow> 'a list \<Rightarrow> error + 'b list" where
  "merge_by_name nm body a b =
     (let types = group_by_name nm a b;
          names = sorted_names types
      in merge_loop body types names [])"

text \<open>\<^verbatim>\<open>fmt.Errorf("...: %v", err)\<close> wraps an error value; a panic is not a value and passes through.\<close>

definition wrapErr :: "(error \<Rightarrow> error) \<Rightarrow> error \<Rightarrow> error" where
  "wrapErr w err = (if err = Panic then Panic else w err)"

subsection \<open>mergeInputFields\<close>

text \<open>
  The body of the loop over \<^verbatim>\<open>names\<close>, on \<^verbatim>\<open>p = types[name]\<close>. \<^verbatim>\<open>len(p) == 1\<close> is the single
  occurrence; otherwise \<^verbatim>\<open>p[0]\<close> and \<^verbatim>\<open>p[1]\<close> are merged and any further occurrence is ignored.
  \<^verbatim>\<open>p[0].Type.Kind\<close> dereferences the type pointer.
\<close>

fun mergeInputFields_body ::
  "MergeMode \<Rightarrow> string \<Rightarrow> introspectionInputField list \<Rightarrow> error + introspectionInputField list" where
  "mergeInputFields_body mode name [] = Inl Panic"
| "mergeInputFields_body mode name [p0] =
     (case in_Type p0 of
        nil_ref \<Rightarrow> Inl Panic
      | TypeRef k n t \<Rightarrow>
          if k = ''NON_NULL'' then Inl (NewFieldNonNull name (in_Type p0))
          else if mode = Union_mode then Inr [p0]
          else Inr [])"
| "mergeInputFields_body mode name (p0 # p1 # rest) =
     (case mergeTypeRefs (in_Type p0) (in_Type p1) True of
        Inl err \<Rightarrow> Inl (wrapErr (IncompatibleInputTypes name (in_Type p0) (in_Type p1)) err)
      | Inr m \<Rightarrow> Inr [\<lparr>in_Name = name, in_Type = m\<rparr>])"

definition mergeInputFields ::
  "introspectionInputField list \<Rightarrow> introspectionInputField list \<Rightarrow> MergeMode
    \<Rightarrow> error + introspectionInputField list" where
  "mergeInputFields a b mode = merge_by_name in_Name (mergeInputFields_body mode) a b"

subsection \<open>mergeFields\<close>

fun mergeFields_body ::
  "MergeMode \<Rightarrow> string \<Rightarrow> introspectionField list \<Rightarrow> error + introspectionField list" where
  "mergeFields_body mode name [] = Inl Panic"
| "mergeFields_body mode name [p0] = (if mode = Union_mode then Inr [p0] else Inr [])"
| "mergeFields_body mode name (p0 # p1 # rest) =
     (case mergeTypeRefs (fld_Type p0) (fld_Type p1) False of
        Inl err \<Rightarrow> Inl (wrapErr (IncompatibleFieldTypes name p0 p1) err)
      | Inr typ \<Rightarrow>
          (case mergeInputFields (fld_Args p0) (fld_Args p1) mode of
             Inl err \<Rightarrow> Inl (wrapErr (IncompatibleArguments name) err)
           | Inr args \<Rightarrow> Inr [\<lparr>fld_Name = name, fld_Type = typ, fld_Args = args\<rparr>]))"

definition mergeFields ::
  "introspectionField list \<Rightarrow> introspectionField list \<Rightarrow> MergeMode \<Rightarrow> error + introspectionField list" where
  "mergeFields a b mode = merge_by_name fld_Name (mergeFields_body mode) a b"

subsection \<open>mergePossibleTypes and mergeEnumValues\<close>

text \<open>
  Possible types are pointers: the grouping loops read \<^verbatim>\<open>a.Name\<close> of each, which panics on a
  nil entry before anything is merged. On a name that occurs twice the first occurrence wins.
\<close>

fun first_wins :: "MergeMode \<Rightarrow> string \<Rightarrow> 'a list \<Rightarrow> error + 'a list" where
  "first_wins mode name [] = Inl Panic"
| "first_wins mode name [p0] = (if mode = Union_mode then Inr [p0] else Inr [])"
| "first_wins mode name (p0 # p1 # rest) = Inr [p0]"

definition mergePossibleTypes ::
  "introspectionTypeRef list \<Rightarrow> introspectionTypeRef list \<Rightarrow> MergeMode
    \<Rightarrow> error + introspectionTypeRef list" where
  "mergePossibleTypes a b mode =
     (if nil_ref \<in> set a \<or> nil_ref \<in> set b then Inl Panic
      else merge_by_name ref_Name (first_wins mode) a b)"

definition mergeEnumValues ::
  "introspectionEnumValue list \<Rightarrow> introspectionEnumValue list \<Rightarrow> MergeMode
    \<Rightarrow> error + introspectionEnumValue list" where
  "mergeEnumValues a b mode = merge_by_name ev_Name (first_wins mode) a b"

subsection \<open>mergeTypes\<close>

definition mergeTypes :: "introspectionType \<Rightarrow> introspectionType \<Rightarrow> MergeMode \<Rightarrow> error + introspectionType" where
  "mergeTypes a b mode =
     (if ty_Kind a \<noteq> ty_Kind b then Inl (ConflictingKinds (ty_Kind a) (ty_Kind b))
      else
        let merged = \<lparr>ty_Name = ty_Name a, ty_Kind = ty_Kind a, Fields = [], InputFields = [],
                      PossibleTypes = [], EnumValues = []\<rparr>
        in if ty_Kind a = ''INPUT_OBJECT'' then
             (case mergeInputFields (InputFields a) (InputFields b) mode of
                Inl err \<Rightarrow> Inl (wrapErr MergingInputFields err)
              | Inr inputFields \<Rightarrow> Inr (merged\<lparr>InputFields := inputFields\<rparr>))
           else if ty_Kind a = ''OBJECT'' then
             (case mergeFields (Fields a) (Fields b) mode of
                Inl err \<Rightarrow> Inl (wrapErr MergingFields err)
              | Inr flds \<Rightarrow> Inr (merged\<lparr>Fields := flds\<rparr>))
           else if ty_Kind a = ''UNION'' then
             (case mergePossibleTypes (PossibleTypes a) (PossibleTypes b) mode of
                Inl err \<Rightarrow> Inl (wrapErr MergingPossibleTypes err)
              | Inr possibleTypes \<Rightarrow> Inr (merged\<lparr>PossibleTypes := possibleTypes\<rparr>))
           else if ty_Kind a = ''ENUM'' then
             (case mergeEnumValues (EnumValues a) (EnumValues b) mode of
                Inl err \<Rightarrow> Inl (wrapErr MergingEnumValues err)
              | Inr enumValues \<Rightarrow> Inr (merged\<lparr>EnumValues := enumValues\<rparr>))
           else if ty_Kind a = ''SCALAR'' then Inr merged
           else Inl (UnknownKind (ty_Kind a)))"

subsection \<open>mergeSchemas and mergeSchemaSlice\<close>

fun mergeSchemas_body ::
  "MergeMode \<Rightarrow> string \<Rightarrow> introspectionType list \<Rightarrow> error + introspectionType list" where
  "mergeSchemas_body mode name [] = Inl Panic"
| "mergeSchemas_body mode name [p0] = (if mode = Union_mode then Inr [p0] else Inr [])"
| "mergeSchemas_body mode name (p0 # p1 # rest) =
     (case mergeTypes p0 p1 mode of
        Inl err \<Rightarrow> Inl (wrapErr (CantMergeType name) err)
      | Inr m \<Rightarrow> Inr [m])"

text \<open>
  Schemas are passed as \<^verbatim>\<open>*introspectionQueryResult\<close>: \<open>None\<close> is the nil pointer, and reading
  \<^verbatim>\<open>a.Schema.Types\<close> of it panics. A successful merge returns a fresh, non-nil result.
\<close>

definition mergeSchemas ::
  "introspectionQueryResult option \<Rightarrow> introspectionQueryResult option \<Rightarrow> MergeMode
    \<Rightarrow> error + introspectionQueryResult option" where
  "mergeSchemas a b mode =
     (case a of
        None \<Rightarrow> Inl Panic
      | Some a' \<Rightarrow>
          (case b of
             None \<Rightarrow> Inl Panic
           | Some b' \<Rightarrow>
               (case merge_by_name ty_Name (mergeSchemas_body mode)
                       (Types (Schema a')) (Types (Schema b')) of
                  Inl err \<Rightarrow> Inl err
                | Inr merged \<Rightarrow> Inr (Some \<lparr>Schema = \<lparr>Types = merged\<rparr>\<rparr>))))"

text \<open>The loop \<^verbatim>\<open>for _, schema := range schemas[1:]\<close> of mergeSchemaSlice.\<close>

fun mergeSchemaSlice_loop ::
  "MergeMode \<Rightarrow> introspectionQueryResult option \<Rightarrow> introspectionQueryResult option list
    \<Rightarrow> error + introspectionQueryResult option" where
  "mergeSchemaSlice_loop mode merged [] = Inr merged"
| "mergeSchemaSlice_loop mode merged (schema # rest) =
     (case mergeSchemas merged schema mode of
        Inl err \<Rightarrow> Inl err
      | Inr m \<Rightarrow> mergeSchemaSlice_loop mode m rest)"

definition mergeSchemaSlice ::
  "introspectionQueryResult option list \<Rightarrow> MergeMode \<Rightarrow> error + introspectionQueryResult option" where
  "mergeSchemaSlice schemas mode =
     (case schemas of
        [] \<Rightarrow> Inl NoSchemas
      | s0 # rest \<Rightarrow> mergeSchemaSlice_loop mode s0 rest)"

section \<open>The reactive executor (reactive/rerunner.go)\<close>

text \<open>
  The model follows one goroutine at a time through the code. State shared between goroutines
  is a record \<open>world\<close> that every operation takes and returns; \<^verbatim>\<open>go g()\<close> appends a task to
  the list of goroutines started so far. An operation that does not
  return (it blocks for ever on a keyed lock that an enclosing call holds, or it panics)
  has the result \<open>None\<close>. The \<^verbatim>\<open>sync.Mutex\<close> fields, which only exclude other goroutines,
  have no counterpart.

  Keys and values are \<^verbatim>\<open>interface{}\<close> in the source; natural numbers stand for them.
\<close>

type_synonym node_id = nat
type_synonym key = nat
type_synonym val = nat

text \<open>
  \<^verbatim>\<open>RetrySentinelError\<close> is one distinguished error value, compared with \<^verbatim>\<open>==\<close>; every other
  error a computation returns is an \<open>OtherError\<close>.
\<close>

datatype rerror = RetrySentinelError | OtherError string

text \<open>The goroutines the code starts: \<^verbatim>\<open>go r.run()\<close>, \<^verbatim>\<open>go n.release()\<close>, \<^verbatim>\<open>go n.invalidate()\<close>.\<close>

datatype task = RunTask | ReleaseTask node_id | InvalidateTask node_id

text \<open>
  Modelled from the spec: the dependency node (type \<^verbatim>\<open>node\<close> and its methods \<^verbatim>\<open>addOut\<close>,
  \<^verbatim>\<open>handleInvalidate\<close>, \<^verbatim>\<open>Invalidated\<close>, \<^verbatim>\<open>release\<close>), whose source file is not part of the
  sources at hand. A node has a set of outgoing edges to dependent nodes, an invalidated
  flag, a released flag, and lists of one-shot invalidation and release handlers.
\<close>

record node =
  out :: "node_id list"
  invalidated :: bool
  released :: bool
  invalidateHandlers :: "task list"
  releaseHandlers :: "task list"

text \<open>\<^verbatim>\<open>type computation struct { node node; value interface{} }\<close>; the node is held by its id.\<close>

record computation =
  comp_node :: node_id
  comp_value :: val

text \<open>
  The world: the nodes allocated so far (a pointer to a node is its index), the executor's
  \<^verbatim>\<open>cache.computations\<close> map, the reference counts of the keyed lock table \<^verbatim>\<open>locker.m\<close>, and
  the goroutines started so far, in the order of their \<^verbatim>\<open>go\<close> statements.
\<close>

record world =
  nodes :: "node_id \<Rightarrow> node"
  next_node :: node_id
  computations :: "key \<rightharpoonup> computation"
  locker :: "key \<rightharpoonup> int"
  tasks :: "task list"

text \<open>
  A context carries at most two values: under \<^verbatim>\<open>computationKey{}\<close> the current computation
  (here: its node) and under \<^verbatim>\<open>cacheKey{}\<close> the executor's cache.
\<close>

record ctx =
  computationKey :: "node_id option"
  cacheKey :: bool

type_synonym ComputeFunc = "ctx \<Rightarrow> world \<Rightarrow> ((rerror + val) \<times> world) option"

definition go :: "task \<Rightarrow> world \<Rightarrow> world" where
  "go t w = w\<lparr>tasks := tasks w @ [t]\<rparr>"

text \<open>\<^verbatim>\<open>node{}\<close>: a fresh node, no edges, no handlers, neither invalidated nor released.\<close>

definition new_node :: "world \<Rightarrow> node_id \<times> world" where
  "new_node w =
     (next_node w,
      w\<lparr>nodes := (nodes w)(next_node w :=
            \<lparr>out = [], invalidated = False, released = False,
             invalidateHandlers = [], releaseHandlers = []\<rparr>),
        next_node := Suc (next_node w)\<rparr>)"

text \<open>
  Modelled from the spec: \<^verbatim>\<open>addOut(target)\<close> records \<open>target\<close> as a dependent of node \<open>n\<close>; an
  existing edge is not added again; on an invalidated node the target is invalidated
  promptly, on a released node its release is scheduled.
\<close>

definition addOut :: "node_id \<Rightarrow> node_id \<Rightarrow> world \<Rightarrow> world" where
  "addOut n target w =
     (let nd = nodes w n in
      if target \<in> set (out nd) then w
      else
        let w1 = w\<lparr>nodes := (nodes w)(n := nd\<lparr>out := out nd @ [target]\<rparr>)\<rparr>;
            w2 = (if invalidated nd then go (InvalidateTask target) w1 else w1)
        in if released nd then go (ReleaseTask target) w2 else w2)"

text \<open>
  Modelled from the spec: \<^verbatim>\<open>handleInvalidate(fn)\<close> registers a one-shot handler; on a node
  that is already invalidated the handler runs at once, on a fresh goroutine.
\<close>

definition handleInvalidate :: "node_id \<Rightarrow> task \<Rightarrow> world \<Rightarrow> world" where
  "handleInvalidate n h w =
     (let nd = nodes w n in
      if invalidated nd then go h w
      else w\<lparr>nodes := (nodes w)(n := nd\<lparr>invalidateHandlers := invalidateHandlers nd @ [h]\<rparr>)\<rparr>)"

text \<open>
  Modelled from the spec: \<^verbatim>\<open>invalidate()\<close> sets the flag, runs the pending invalidation
  handlers once each (on fresh goroutines) and forwards the invalidation to every dependent;
  it does nothing on a node that is already invalidated.
\<close>

definition invalidate :: "node_id \<Rightarrow> world \<Rightarrow> world" where
  "invalidate n w =
     (let nd = nodes w n in
      if invalidated nd then w
      else
        w\<lparr>nodes := (nodes w)(n := nd\<lparr>invalidated := True, invalidateHandlers := []\<rparr>),
          tasks := tasks w @ invalidateHandlers nd @ map InvalidateTask (out nd)\<rparr>)"

subsection \<open>The keyed lock table\<close>

text \<open>
  \<^verbatim>\<open>Lock(k)\<close> allocates the entry if it is missing, increments \<^verbatim>\<open>ref\<close> and locks the entry's
  mutex. In one goroutine's view an entry that exists is held by an enclosing call, so the
  mutex never becomes free: the call does not return. \<^verbatim>\<open>Unlock(k)\<close> reads \<^verbatim>\<open>l.m[k]\<close> and
  dereferences it (a panic if the entry is missing), decrements \<^verbatim>\<open>ref\<close> and deletes the
  entry at zero.
\<close>

definition locker_Lock :: "key \<Rightarrow> world \<Rightarrow> world option" where
  "locker_Lock k w =
     (case locker w k of
        None \<Rightarrow> Some (w\<lparr>locker := (locker w)(k \<mapsto> 1)\<rparr>)
      | Some ref \<Rightarrow> None)"

definition locker_Unlock :: "key \<Rightarrow> world \<Rightarrow> world option" where
  "locker_Unlock k w =
     (case locker w k of
        None \<Rightarrow> None
      | Some ref \<Rightarrow>
          Some (w\<lparr>locker := (if ref - 1 = 0 then (locker w)(k := None)
                             else (locker w)(k \<mapsto> ref - 1))\<rparr>))"

subsection \<open>The computation cache\<close>

definition cache_get :: "key \<Rightarrow> world \<Rightarrow> computation option" where
  "cache_get k w = computations w k"

definition cache_set :: "key \<Rightarrow> computation \<Rightarrow> world \<Rightarrow> world" where
  "cache_set k c w =
     (if computations w k = None then w\<lparr>computations := (computations w)(k \<mapsto> c)\<rparr> else w)"

definition cleanInvalidated :: "world \<Rightarrow> world" where
  "cleanInvalidated w =
     w\<lparr>computations := (\<lambda>k.
          case computations w k of
            None \<Rightarrow> None
          | Some c \<Rightarrow> if invalidated (nodes w (comp_node c)) then None else Some c)\<rparr>"

subsection \<open>run, HasRerunner and Cache\<close>

definition HasRerunner :: "ctx \<Rightarrow> bool" where
  "HasRerunner c = (computationKey c \<noteq> None)"

text \<open>
  \<^verbatim>\<open>run(ctx, f)\<close>: a fresh computation \<open>c\<close>, \<open>f\<close> called under a context that carries it; on an
  error \<^verbatim>\<open>go c.node.release()\<close> and the error is returned, otherwise the computation with
  the value stored.
\<close>

definition run :: "ctx \<Rightarrow> ComputeFunc \<Rightarrow> world \<Rightarrow> ((rerror + computation) \<times> world) option" where
  "run c f w =
     (let (n, w1) = new_node w;
          childCtx = c\<lparr>computationKey := Some n\<rparr>
      in case f childCtx w1 of
           None \<Rightarrow> None
         | Some (Inl err, w2) \<Rightarrow> Some (Inl err, go (ReleaseTask n) w2)
         | Some (Inr v, w2) \<Rightarrow> Some (Inr \<lparr>comp_node = n, comp_value = v\<rparr>, w2))"

text \<open>
  \<^verbatim>\<open>Cache(ctx, key, f)\<close>. The type assertion \<^verbatim>\<open>ctx.Value(cacheKey{}).(*cache)\<close> panics on a
  context without a cache. \<^verbatim>\<open>defer cache.locker.Unlock(key)\<close> runs on each of the three
  returns.
\<close>

definition Cache :: "ctx \<Rightarrow> key \<Rightarrow> ComputeFunc \<Rightarrow> world \<Rightarrow> ((rerror + val) \<times> world) option" where
  "Cache c k f w =
     (if \<not> HasRerunner c then f c w
      else if \<not> cacheKey c then None
      else
        case computationKey c of
          None \<Rightarrow> None
        | Some computation \<Rightarrow>
            (case locker_Lock k w of
               None \<Rightarrow> None
             | Some w1 \<Rightarrow>
                 (case cache_get k w1 of
                    Some child \<Rightarrow>
                      (case locker_Unlock k (addOut (comp_node child) computation w1) of
                         None \<Rightarrow> None
                       | Some w' \<Rightarrow> Some (Inr (comp_value child), w'))
                  | None \<Rightarrow>
                      (case run c f w1 of
                         None \<Rightarrow> None
                       | Some (Inl err, w2) \<Rightarrow>
                           (case locker_Unlock k w2 of
                              None \<Rightarrow> None
                            | Some w' \<Rightarrow> Some (Inl err, w'))
                       | Some (Inr child, w2) \<Rightarrow>
                           (case locker_Unlock k
                                   (addOut (comp_node child) computation (cache_set k child w2)) of
                              None \<Rightarrow> None
                            | Some w' \<Rightarrow> Some (Inr (comp_value child), w'))))))"

subsection \<open>Rerunner\<close>

text \<open>
  The executor's own state. \<^verbatim>\<open>time.Duration\<close> is an \<^verbatim>\<open>int64\<close> count of nanoseconds: a 64-bit
  word read as two's complement, whose multiplication wraps around. \<open>cancelled\<close> says that
  \<^verbatim>\<open>r.ctx\<close> is done. The time of the last run is a number.
\<close>

record rerunner =
  cancelled :: bool
  minRerunInterval :: "64 word"
  retryDelay :: "64 word"
  computation :: "computation option"
  stop :: bool
  lastRun :: int

definition Minute :: "64 word" where
  "Minute = 60000000000"

definition NewRerunner :: "64 word \<Rightarrow> world \<Rightarrow> rerunner \<times> world" where
  "NewRerunner interval w =
     (\<lparr>cancelled = False, minRerunInterval = interval, retryDelay = interval,
       computation = None, stop = False, lastRun = 0\<rparr>,
      go RunTask w)"

text \<open>
  \<^verbatim>\<open>Rerunner.run\<close>. The \<^verbatim>\<open>select\<close> between \<^verbatim>\<open>r.ctx.Done()\<close> and the timer is decided by the
  scheduler: \<open>done_first\<close> says that the \<^verbatim>\<open>Done\<close> branch was taken, which only a cancelled
  context allows. \<open>now\<close> is what \<^verbatim>\<open>time.Now()\<close> returns after the computation. The function
  \<open>f\<close> is the field \<^verbatim>\<open>r.f\<close>, which never changes.
\<close>

definition Rerunner_run ::
  "ComputeFunc \<Rightarrow> bool \<Rightarrow> int \<Rightarrow> rerunner \<times> world \<Rightarrow> (rerunner \<times> world) option" where
  "Rerunner_run f done_first now rw =
     (let (r, w) = rw in
      if cancelled r \<and> done_first then Some (r, w)
      else if stop r then Some (r, w)
      else
        let w1 = cleanInvalidated w;
            c = \<lparr>computationKey = None, cacheKey = True\<rparr>
        in case run c f w1 of
             None \<Rightarrow> None
           | Some (Inl err, w2) \<Rightarrow>
               let r1 = r\<lparr>lastRun := now\<rparr> in
               if err = RetrySentinelError then
                 let r2 = r1\<lparr>retryDelay := retryDelay r1 * 2\<rparr>;
                     r3 = (if Minute <s retryDelay r2 then r2\<lparr>retryDelay := Minute\<rparr> else r2)
                 in Some (r3, go RunTask w2)
               else Some (r1, w2)
           | Some (Inr new, w2) \<Rightarrow>
               let r1 = r\<lparr>lastRun := now\<rparr>;
                   w3 = (case computation r1 of
                           None \<Rightarrow> w2
                         | Some old \<Rightarrow> go (ReleaseTask (comp_node old)) w2);
                   r2 = r1\<lparr>computation := Some new, retryDelay := minRerunInterval r1\<rparr>
               in Some (r2, handleInvalidate (comp_node new) RunTask w3))"

text \<open>\<^verbatim>\<open>Rerunner.Stop\<close>: cancel the context, set \<^verbatim>\<open>stop\<close>, release the current computation.\<close>

definition Rerunner_Stop :: "rerunner \<times> world \<Rightarrow> rerunner \<times> world" where
  "Rerunner_Stop rw =
     (let (r, w) = rw;
          r1 = r\<lparr>cancelled := True, stop := True\<rparr>
      in case computation r1 of
           None \<Rightarrow> (r1, w)
         | Some old \<Rightarrow> (r1\<lparr>computation := None\<rparr>, go (ReleaseTask (comp_node old)) w))"

section \<open>Specification predicates and concrete inputs\<close>

text \<open>Type references \<^verbatim>\<open>Int\<close>, \<^verbatim>\<open>String\<close>, \<^verbatim>\<open>T!\<close> and \<^verbatim>\<open>[T]\<close>.\<close>

definition tInt :: introspectionTypeRef where
  "tInt = TypeRef ''SCALAR'' ''Int'' nil_ref"

definition tString :: introspectionTypeRef where
  "tString = TypeRef ''SCALAR'' ''String'' nil_ref"

definition tNonNull :: "introspectionTypeRef \<Rightarrow> introspectionTypeRef" where
  "tNonNull t = TypeRef ''NON_NULL'' [] t"

definition tList :: "introspectionTypeRef \<Rightarrow> introspectionTypeRef" where
  "tList t = TypeRef ''LIST'' [] t"

subsection \<open>Inputs for mergeInputFields\<close>

text \<open>
  \<open>earlier_names_merge a b n\<close>: every name that sorts before \<open>n\<close> passes the loop body
  without a failure of its own kind: a single occurrence has a type that is not nil, and the
  first two of several occurrences have compatible types.
\<close>

definition earlier_names_merge ::
  "introspectionInputField list \<Rightarrow> introspectionInputField list \<Rightarrow> string \<Rightarrow> bool" where
  "earlier_names_merge a b n =
     (\<forall>m \<in> set (map in_Name (a @ b)). m < n \<longrightarrow>
        (case filter (\<lambda>x. in_Name x = m) (a @ b) of
           [] \<Rightarrow> True
         | [x] \<Rightarrow> in_Type x \<noteq> nil_ref
         | x # y # rest \<Rightarrow> \<not> isl (mergeTypeRefs (in_Type x) (in_Type y) True)))"

definition ex4_a :: "introspectionInputField list" where
  "ex4_a = [\<lparr>in_Name = ''a'', in_Type = tInt\<rparr>, \<lparr>in_Name = ''z'', in_Type = tNonNull tInt\<rparr>]"

definition ex4_b :: "introspectionInputField list" where
  "ex4_b = [\<lparr>in_Name = ''a'', in_Type = tString\<rparr>]"

definition ex4_c :: "introspectionInputField list" where
  "ex4_c = [\<lparr>in_Name = ''a'', in_Type = tInt\<rparr>]"

subsection \<open>The left fold of the specification\<close>

text \<open>
  The specification describes \<open>mergeSchemaSlice\<close> as a left fold of \<open>mergeSchemas\<close> over the
  list, starting from the first element. One step of that fold, on results: an error that has
  arisen is kept, otherwise the next schema is merged in.
\<close>

definition merge_step ::
  "MergeMode \<Rightarrow> error + introspectionQueryResult option \<Rightarrow> introspectionQueryResult option
    \<Rightarrow> error + introspectionQueryResult option" where
  "merge_step mode acc schema =
     (case acc of Inl err \<Rightarrow> Inl err | Inr merged \<Rightarrow> mergeSchemas merged schema mode)"

subsection \<open>Inputs for the schema mergers\<close>

definition scalarType :: "string \<Rightarrow> introspectionType" where
  "scalarType n = \<lparr>ty_Name = n, ty_Kind = ''SCALAR'', Fields = [], InputFields = [],
                   PossibleTypes = [], EnumValues = []\<rparr>"

definition objectType :: "string \<Rightarrow> introspectionField list \<Rightarrow> introspectionType" where
  "objectType n fs = \<lparr>ty_Name = n, ty_Kind = ''OBJECT'', Fields = fs, InputFields = [],
                      PossibleTypes = [], EnumValues = []\<rparr>"

definition inputObjectType :: "string \<Rightarrow> introspectionInputField list \<Rightarrow> introspectionType" where
  "inputObjectType n fs = \<lparr>ty_Name = n, ty_Kind = ''INPUT_OBJECT'', Fields = [], InputFields = fs,
                           PossibleTypes = [], EnumValues = []\<rparr>"

definition schema_of :: "introspectionType list \<Rightarrow> introspectionQueryResult option" where
  "schema_of ts = Some \<lparr>Schema = \<lparr>Types = ts\<rparr>\<rparr>"

definition ex9_dup :: "introspectionQueryResult option" where
  "ex9_dup = schema_of [scalarType ''X'', objectType ''X'' []]"

definition ex9_lone :: "introspectionQueryResult option" where
  "ex9_lone = schema_of [inputObjectType ''In'' [\<lparr>in_Name = ''x'', in_Type = tNonNull tInt\<rparr>]]"

subsection \<open>Names present in a schema\<close>

text \<open>
  What the specification's properties P8, P9 and P10 speak about: the top-level type names
  of a schema and, per type, the names of its fields, input fields, enum values and possible
  types. A member name is paired with the name of its type. A nil possible type has no name.
\<close>

definition ref_names :: "introspectionTypeRef list \<Rightarrow> string list" where
  "ref_names ts = map ref_Name (filter (\<lambda>t. t \<noteq> nil_ref) ts)"

definition fieldNames :: "introspectionType \<Rightarrow> string list" where
  "fieldNames t = map fld_Name (Fields t)"

definition inputFieldNames :: "introspectionType \<Rightarrow> string list" where
  "inputFieldNames t = map in_Name (InputFields t)"

definition enumValueNames :: "introspectionType \<Rightarrow> string list" where
  "enumValueNames t = map ev_Name (EnumValues t)"

definition possibleTypeNames :: "introspectionType \<Rightarrow> string list" where
  "possibleTypeNames t = ref_names (PossibleTypes t)"

definition type_names :: "introspectionQueryResult \<Rightarrow> string list" where
  "type_names s = map ty_Name (Types (Schema s))"

definition member_names ::
  "(introspectionType \<Rightarrow> string list) \<Rightarrow> introspectionQueryResult \<Rightarrow> (string \<times> string) list" where
  "member_names sel s = concat (map (\<lambda>t. map (Pair (ty_Name t)) (sel t)) (Types (Schema s)))"

text \<open>Every name present in \<open>m\<close> is present in \<open>s\<close>.\<close>

definition names_within :: "introspectionQueryResult \<Rightarrow> introspectionQueryResult \<Rightarrow> bool" where
  "names_within m s \<longleftrightarrow>
     set (type_names m) \<subseteq> set (type_names s) \<and>
     set (member_names fieldNames m) \<subseteq> set (member_names fieldNames s) \<and>
     set (member_names inputFieldNames m) \<subseteq> set (member_names inputFieldNames s) \<and>
     set (member_names enumValueNames m) \<subseteq> set (member_names enumValueNames s) \<and>
     set (member_names possibleTypeNames m) \<subseteq> set (member_names possibleTypeNames s)"

text \<open>No type name is repeated in the schema; no member name is repeated within a type.\<close>

definition distinct_type_names :: "introspectionQueryResult \<Rightarrow> bool" where
  "distinct_type_names s = distinct (type_names s)"

definition distinct_members :: "introspectionType \<Rightarrow> bool" where
  "distinct_members t \<longleftrightarrow>
     distinct (fieldNames t) \<and> distinct (inputFieldNames t) \<and>
     distinct (enumValueNames t) \<and> distinct (possibleTypeNames t)"

definition distinct_member_names :: "introspectionQueryResult \<Rightarrow> bool" where
  "distinct_member_names s = list_all distinct_members (Types (Schema s))"

text \<open>
  The data model of the specification: which of the four collections of a type is populated
  is determined by its kind.
\<close>

definition populated_by_kind_type :: "introspectionType \<Rightarrow> bool" where
  "populated_by_kind_type t \<longleftrightarrow>
     (ty_Kind t = ''OBJECT'' \<or> Fields t = []) \<and>
     (ty_Kind t = ''INPUT_OBJECT'' \<or> InputFields t = []) \<and>
     (ty_Kind t = ''ENUM'' \<or> EnumValues t = []) \<and>
     (ty_Kind t = ''UNION'' \<or> PossibleTypes t = [])"

definition populated_by_kind :: "introspectionQueryResult \<Rightarrow> bool" where
  "populated_by_kind s = list_all populated_by_kind_type (Types (Schema s))"

text \<open>
  The shape of a type: its name and kind, its fields and input fields with their type
  references, its enum values and the names of its possible types, each in list order.
\<close>

definition type_shape ::
  "introspectionType \<Rightarrow>
     string \<times> string \<times> (string \<times> introspectionTypeRef) list \<times> (string \<times> introspectionTypeRef) list
       \<times> string list \<times> string list" where
  "type_shape t =
     (ty_Name t, ty_Kind t,
      map (\<lambda>f. (fld_Name f, fld_Type f)) (Fields t),
      map (\<lambda>i. (in_Name i, in_Type i)) (InputFields t),
      enumValueNames t,
      possibleTypeNames t)"

definition same_shape :: "introspectionQueryResult \<Rightarrow> introspectionQueryResult \<Rightarrow> bool" where
  "same_shape m1 m2 \<longleftrightarrow>
     map type_shape (Types (Schema m1)) = map type_shape (Types (Schema m2))"

definition mk_schema :: "introspectionType list \<Rightarrow> introspectionQueryResult" where
  "mk_schema ts = \<lparr>Schema = \<lparr>Types = ts\<rparr>\<rparr>"

definition mk_field :: "string \<Rightarrow> introspectionTypeRef \<Rightarrow> introspectionInputField list \<Rightarrow> introspectionField" where
  "mk_field n t as = \<lparr>fld_Name = n, fld_Type = t, fld_Args = as\<rparr>"


definition ex_dup_a :: introspectionQueryResult where
  "ex_dup_a = mk_schema [scalarType ''X'', scalarType ''X'']"

definition ex_dup_obj_a :: introspectionQueryResult where
  "ex_dup_obj_a = mk_schema [objectType ''X'' [mk_field ''f'' tInt []],
                             objectType ''X'' [mk_field ''g'' tInt []]]"

definition ex_dup_obj_b :: introspectionQueryResult where
  "ex_dup_obj_b = mk_schema [objectType ''X'' [mk_field ''h'' tInt []]]"

definition ex_scalar_with_field :: introspectionQueryResult where
  "ex_scalar_with_field =
     mk_schema [\<lparr>ty_Name = ''S'', ty_Kind = ''SCALAR'', Fields = [mk_field ''f'' tInt []],
                 InputFields = [], PossibleTypes = [], EnumValues = []\<rparr>]"

definition unionType :: "string \<Rightarrow> introspectionTypeRef list \<Rightarrow> introspectionType" where
  "unionType n ps = \<lparr>ty_Name = n, ty_Kind = ''UNION'', Fields = [], InputFields = [],
                     PossibleTypes = ps, EnumValues = []\<rparr>"

definition ex_dup_field_a :: introspectionQueryResult where
  "ex_dup_field_a = mk_schema [objectType ''X'' [mk_field ''f'' tInt [], mk_field ''f'' tInt []]]"

definition ex_dup_in_a :: introspectionQueryResult where
  "ex_dup_in_a =
     mk_schema [inputObjectType ''In'' [\<lparr>in_Name = ''x'', in_Type = tInt\<rparr>,
                                        \<lparr>in_Name = ''x'', in_Type = tNonNull tInt\<rparr>]]"

definition ex_dup_in_b :: introspectionQueryResult where
  "ex_dup_in_b = mk_schema [inputObjectType ''In'' [\<lparr>in_Name = ''x'', in_Type = tInt\<rparr>]]"

definition ex_shape_a :: introspectionQueryResult where
  "ex_shape_a =
     mk_schema [objectType ''Query''
                  [mk_field ''f'' (tNonNull tInt) [\<lparr>in_Name = ''x'', in_Type = tInt\<rparr>]],
                unionType ''U'' [TypeRef ''OBJECT'' ''Query'' nil_ref]]"

definition ex_shape_b :: introspectionQueryResult where
  "ex_shape_b =
     mk_schema [objectType ''Query''
                  [mk_field ''f'' tInt [\<lparr>in_Name = ''x'', in_Type = tNonNull tInt\<rparr>]],
                unionType ''U'' [TypeRef ''INTERFACE'' ''Query'' nil_ref]]"

definition ex_shape_ab :: introspectionQueryResult where
  "ex_shape_ab =
     mk_schema [objectType ''Query''
                  [mk_field ''f'' tInt [\<lparr>in_Name = ''x'', in_Type = tNonNull tInt\<rparr>]],
                unionType ''U'' [TypeRef ''OBJECT'' ''Query'' nil_ref]]"

definition ex_shape_ba :: introspectionQueryResult where
  "ex_shape_ba =
     mk_schema [objectType ''Query''
                  [mk_field ''f'' tInt [\<lparr>in_Name = ''x'', in_Type = tNonNull tInt\<rparr>]],
                unionType ''U'' [TypeRef ''INTERFACE'' ''Query'' nil_ref]]"

definition ex_query_a :: introspectionQueryResult where
  "ex_query_a =
     mk_schema [objectType ''Query'' [mk_field ''a'' (tNonNull tInt) [],
                                      mk_field ''c'' tInt [\<lparr>in_Name = ''x'', in_Type = tInt\<rparr>]],
                scalarType ''Int'']"

definition ex_query_b :: introspectionQueryResult where
  "ex_query_b =
     mk_schema [objectType ''Query'' [mk_field ''b'' tString [],
                                      mk_field ''c'' (tNonNull tInt)
                                        [\<lparr>in_Name = ''x'', in_Type = tNonNull tInt\<rparr>]],
                scalarType ''Int'', scalarType ''String'']"

definition ex_query_inter :: introspectionQueryResult where
  "ex_query_inter =
     mk_schema [scalarType ''Int'',
                objectType ''Query''
                  [mk_field ''c'' tInt [\<lparr>in_Name = ''x'', in_Type = tNonNull tInt\<rparr>]]]"

definition ex_query_union :: introspectionQueryResult where
  "ex_query_union =
     mk_schema [scalarType ''Int'',
                objectType ''Query''
                  [mk_field ''a'' (tNonNull tInt) [],
                   mk_field ''b'' tString [],
                   mk_field ''c'' tInt [\<lparr>in_Name = ''x'', in_Type = tNonNull tInt\<rparr>]],
                scalarType ''String'']"

subsection \<open>Inputs for the reactive executor\<close>

text \<open>
  The empty world; computations that always ask for a retry, always succeed, always fail;
  the context of a computation whose node is node 0, and a world in which that node exists.
\<close>

definition world0 :: world where
  "world0 = \<lparr>nodes = (\<lambda>n. \<lparr>out = [], invalidated = False, released = False,
                              invalidateHandlers = [], releaseHandlers = []\<rparr>),
             next_node = 0, computations = Map.empty, locker = Map.empty, tasks = []\<rparr>"

definition always_retry :: ComputeFunc where
  "always_retry c w = Some (Inl RetrySentinelError, w)"

definition always_ok :: ComputeFunc where
  "always_ok c w = Some (Inr 1, w)"


text \<open>
  What \<open>Cache\<close> hands to the function on a miss: the context carries a fresh computation,
  and in the world the key is locked and the node of that computation allocated.
\<close>

definition entered :: "key \<Rightarrow> world \<Rightarrow> world" where
  "entered k w = snd (new_node (w\<lparr>locker := (locker w)(k \<mapsto> 1)\<rparr>))"

definition child_ctx :: "ctx \<Rightarrow> world \<Rightarrow> ctx" where
  "child_ctx c w = c\<lparr>computationKey := Some (next_node w)\<rparr>"

definition always_fail :: ComputeFunc where
  "always_fail c w = Some (Inl (OtherError ''boom''), w)"

definition in_run :: ctx where
  "in_run = \<lparr>computationKey = Some 0, cacheKey = True\<rparr>"

definition world1 :: world where
  "world1 = snd (new_node world0)"


text \<open>
  An executor whose computation succeeds on its first run and fails with an ordinary error
  once the node of that first computation (node 0) has been invalidated: the first run, and
  the re-run that the invalidation triggers.
\<close>

definition fail_after_invalidation :: ComputeFunc where
  "fail_after_invalidation c w =
     (if invalidated (nodes w 0) then Some (Inl (OtherError ''boom''), w) else Some (Inr 1, w))"

definition first_run :: "(rerunner \<times> world) option" where
  "first_run = Rerunner_run fail_after_invalidation False 1 (NewRerunner 10000000 world0)"

definition fatal_rerun :: "(rerunner \<times> world) option" where
  "fatal_rerun =
     (case first_run of
        None \<Rightarrow> None
      | Some (r1, w1) \<Rightarrow> Rerunner_run fail_after_invalidation False 2 (r1, invalidate 0 w1))"

section \<open>Properties of mergeTypeRefs\<close>

lemma mergeTypeRefs_top:
  "mergeTypeRefs a b isInput = Inr r \<Longrightarrow>
   isNonNull r \<longleftrightarrow> (if isInput then isNonNull a \<or> isNonNull b else isNonNull a \<and> isNonNull b)"
proof (induction a b isInput arbitrary: r rule: mergeTypeRefs.induct)
  case (1 b isInput)
  then show ?case by simp
next
  case (2 ak an ao isInput)
  then show ?case by simp
next
  case (3 ak an ao bk bn bo isInput)
  show ?case
  proof (cases "ak = ''NON_NULL'' \<or> bk = ''NON_NULL''")
    case False
    with "3.prems" show ?thesis
      by (auto simp: mergeTypeRefs.simps(3) split: if_splits sum.splits)
  next
    case True
    let ?a = "if ak = ''NON_NULL'' then ao else TypeRef ak an ao"
    let ?b = "if bk = ''NON_NULL'' then bo else TypeRef bk bn bo"
    from True "3.prems" obtain merged where
      m: "mergeTypeRefs ?a ?b isInput = Inr merged" and
      r: "r = (if isInput \<or> (ak = ''NON_NULL'' \<and> bk = ''NON_NULL'')
               then TypeRef ''NON_NULL'' [] merged else merged)"
      by (auto simp: mergeTypeRefs.simps(3) Let_def split: if_splits sum.splits)
    have ih: "isNonNull merged \<longleftrightarrow>
        (if isInput then isNonNull ?a \<or> isNonNull ?b else isNonNull ?a \<and> isNonNull ?b)"
      using "3.IH"(1) [OF refl refl refl refl True m] .
    show ?thesis
    proof (cases "isInput \<or> (ak = ''NON_NULL'' \<and> bk = ''NON_NULL'')")
      case True
      with r \<open>ak = ''NON_NULL'' \<or> bk = ''NON_NULL''\<close> show ?thesis by auto
    next
      case False
      with r ih \<open>ak = ''NON_NULL'' \<or> bk = ''NON_NULL''\<close> show ?thesis by auto
    qed
  qed
qed

lemma unwrapNonNull_id: "\<not> isNonNull x \<Longrightarrow> unwrapNonNull x = x"
  by (cases x) auto

lemma mergeTypeRefs_rule:
  "mergeTypeRefs a b isInput = Inr r \<Longrightarrow> nullabilityRule isInput a b r"
proof (induction a b isInput arbitrary: r rule: mergeTypeRefs.induct)
  case (1 b isInput)
  then show ?case by simp
next
  case (2 ak an ao isInput)
  then show ?case by simp
next
  case (3 ak an ao bk bn bo isInput)
  let ?A = "TypeRef ak an ao" and ?B = "TypeRef bk bn bo"
  have top: "isNonNull r \<longleftrightarrow>
      (if isInput then isNonNull ?A \<or> isNonNull ?B else isNonNull ?A \<and> isNonNull ?B)"
    using mergeTypeRefs_top [OF "3.prems"] .
  show ?case
  proof (cases "ak = ''NON_NULL'' \<or> bk = ''NON_NULL''")
    case True
    let ?a = "if ak = ''NON_NULL'' then ao else TypeRef ak an ao"
    let ?b = "if bk = ''NON_NULL'' then bo else TypeRef bk bn bo"
    from True "3.prems" obtain merged where
      m: "mergeTypeRefs ?a ?b isInput = Inr merged" and
      r: "r = (if isInput \<or> (ak = ''NON_NULL'' \<and> bk = ''NON_NULL'')
               then TypeRef ''NON_NULL'' [] merged else merged)"
      by (auto simp: mergeTypeRefs.simps(3) Let_def split: if_splits sum.splits)
    have ih: "nullabilityRule isInput ?a ?b merged"
      using "3.IH"(1) [OF refl refl refl refl True m] .
    have mtop: "isNonNull merged \<longleftrightarrow>
        (if isInput then isNonNull ?a \<or> isNonNull ?b else isNonNull ?a \<and> isNonNull ?b)"
      using mergeTypeRefs_top [OF m] .
    have u: "unwrapNonNull r = merged"
      using r mtop True by (auto simp: unwrapNonNull_id split: if_splits)
    have "nullabilityRule isInput (unwrapNonNull ?A) (unwrapNonNull ?B) (unwrapNonNull r)"
      using ih u by simp
    with top True show ?thesis
      by (subst nullabilityRule.simps) simp
  next
    case False
    show ?thesis
    proof (cases "ak = ''LIST'' \<and> bk = ''LIST''")
      case True
      with False "3.prems" obtain inner where
        m: "mergeTypeRefs ao bo isInput = Inr inner" and r: "r = TypeRef ''LIST'' [] inner"
        by (auto simp: mergeTypeRefs.simps(3) Let_def split: if_splits sum.splits)
      have "nullabilityRule isInput ao bo inner"
        using "3.IH"(2) [OF refl refl refl refl False _ _ _ m] True by simp
      with top True False r show ?thesis
        by (subst nullabilityRule.simps) simp
    next
      case notlist: False
      with top False show ?thesis
        by (subst nullabilityRule.simps) auto
    qed
  qed
qed

text \<open>
  Claim C2. Whenever \<open>mergeTypeRefs\<close> succeeds: in input position the result is \<^verbatim>\<open>NON_NULL\<close>
  iff \<open>a\<close> or \<open>b\<close> is, and the same rule holds again at every level of nesting (below the
  \<^verbatim>\<open>NON_NULL\<close> wrappers and below the \<^verbatim>\<open>LIST\<close>s); in output position the result is
  \<^verbatim>\<open>NON_NULL\<close> iff both \<open>a\<close> and \<open>b\<close> are.
\<close>

theorem mergeTypeRefs_nullability:
  "(mergeTypeRefs a b True = Inr r \<longrightarrow>
      (isNonNull r \<longleftrightarrow> isNonNull a \<or> isNonNull b) \<and> nullabilityRule True a b r) \<and>
   (mergeTypeRefs a b False = Inr r' \<longrightarrow>
      (isNonNull r' \<longleftrightarrow> isNonNull a \<and> isNonNull b))"
  using mergeTypeRefs_top [of a b True r] mergeTypeRefs_top [of a b False r']
    mergeTypeRefs_rule [of a b True r]
  by simp

theorem mergeTypeRefs_nullability_witness:
  "mergeTypeRefs (tNonNull (tList (tNonNull tInt))) (tList tInt) True
     = Inr (tNonNull (tList (tNonNull tInt))) \<and>
   isNonNull (tNonNull (tList (tNonNull tInt))) \<and>
   nullabilityRule True (tNonNull (tList (tNonNull tInt))) (tList tInt)
     (tNonNull (tList (tNonNull tInt))) \<and>
   mergeTypeRefs (tNonNull (tList (tNonNull tInt))) (tList tInt) False = Inr (tList tInt) \<and>
   \<not> isNonNull (tList tInt)"
proof -
  have i: "mergeTypeRefs (tNonNull (tList (tNonNull tInt))) (tList tInt) True
      = Inr (tNonNull (tList (tNonNull tInt)))"
    by (simp add: mergeTypeRefs.simps(3) tNonNull_def tList_def tInt_def)
  have o: "mergeTypeRefs (tNonNull (tList (tNonNull tInt))) (tList tInt) False = Inr (tList tInt)"
    by (simp add: mergeTypeRefs.simps(3) tNonNull_def tList_def tInt_def)
  show ?thesis
    using mergeTypeRefs_nullability
      [of "tNonNull (tList (tNonNull tInt))" "tList tInt" "tNonNull (tList (tNonNull tInt))"
          "tList tInt"] i o
    by (simp add: tNonNull_def tList_def)
qed

section \<open>Properties of the grouping pattern and of the merge loop\<close>

lemma types_get_update:
  "types_get (AList.update k v al) n = (if n = k then v else types_get al n)"
  by (simp add: types_get_def update_conv')

lemma types_get_append:
  "types_get (types_append nm types x) n =
     (if nm x = n then types_get types n @ [x] else types_get types n)"
  by (auto simp: types_append_def types_get_update)

lemma types_get_foldl:
  "types_get (foldl (types_append nm) types xs) n = types_get types n @ filter (\<lambda>x. nm x = n) xs"
  by (induction xs arbitrary: types) (auto simp: types_get_append)

lemma types_get_Nil: "types_get [] n = []"
  by (simp add: types_get_def)

lemma types_get_group:
  "types_get (group_by_name nm a b) n = filter (\<lambda>x. nm x = n) (a @ b)"
  by (simp add: group_by_name_def types_get_foldl types_get_Nil)

lemma keys_foldl:
  "fst ` set (foldl (types_append nm) types xs) = fst ` set types \<union> nm ` set xs"
  by (induction xs arbitrary: types) (auto simp: types_append_def dom_update)

lemma distinct_foldl:
  "distinct (map fst types) \<Longrightarrow> distinct (map fst (foldl (types_append nm) types xs))"
  by (induction xs arbitrary: types) (auto simp: types_append_def distinct_update)

lemma set_sorted_names: "set (sorted_names (group_by_name nm a b)) = nm ` set (a @ b)"
  by (auto simp: sorted_names_def group_by_name_def keys_foldl image_Un)

lemma sorted_sorted_names: "sorted (sorted_names types)"
  by (simp add: sorted_names_def)

lemma distinct_sorted_names: "distinct (sorted_names (group_by_name nm a b))"
  by (simp add: sorted_names_def group_by_name_def distinct_foldl)

lemma sorted_names_commute:
  "sorted_names (group_by_name nm a b) = sorted_names (group_by_name nm b a)"
proof (rule sorted_distinct_set_unique)
  show "set (sorted_names (group_by_name nm a b)) = set (sorted_names (group_by_name nm b a))"
    by (auto simp: set_sorted_names)
qed (simp_all add: sorted_sorted_names distinct_sorted_names)

lemma merge_loop_Inr:
  "merge_loop body types names acc = Inr res \<Longrightarrow>
   \<exists>parts. list_all2 (\<lambda>n xs. body n (types_get types n) = Inr xs) names parts \<and>
           res = acc @ concat parts"
proof (induction names arbitrary: acc)
  case Nil
  then show ?case by simp
next
  case (Cons n names)
  from Cons.prems obtain xs where
    b: "body n (types_get types n) = Inr xs" and
    r: "merge_loop body types names (acc @ xs) = Inr res"
    by (auto split: sum.splits)
  from Cons.IH [OF r] obtain parts where
    "list_all2 (\<lambda>n xs. body n (types_get types n) = Inr xs) names parts"
    "res = (acc @ xs) @ concat parts"
    by blast
  with b have "list_all2 (\<lambda>n xs. body n (types_get types n) = Inr xs) (n # names) (xs # parts)
      \<and> res = acc @ concat (xs # parts)"
    by simp
  then show ?case by blast
qed

lemma merge_loop_parts:
  "list_all2 (\<lambda>n xs. body n (types_get types n) = Inr xs) names parts \<Longrightarrow>
   merge_loop body types names acc = Inr (acc @ concat parts)"
  by (induction names parts arbitrary: acc rule: list_all2_induct) auto

lemma merge_loop_mem:
  assumes "merge_loop body types names acc = Inr res"
  shows "x \<in> set res \<longleftrightarrow>
     x \<in> set acc \<or> (\<exists>n \<in> set names. \<exists>xs. body n (types_get types n) = Inr xs \<and> x \<in> set xs)"
proof -
  from merge_loop_Inr [OF assms] obtain parts where
    p: "list_all2 (\<lambda>n xs. body n (types_get types n) = Inr xs) names parts" and
    r: "res = acc @ concat parts"
    by blast
  have "(\<exists>xs \<in> set parts. x \<in> set xs) \<longleftrightarrow>
      (\<exists>n \<in> set names. \<exists>xs. body n (types_get types n) = Inr xs \<and> x \<in> set xs)"
    using p by (induction names parts rule: list_all2_induct) auto
  with r show ?thesis by auto
qed

lemma merge_loop_all_ok:
  "merge_loop body types names acc = Inr res \<Longrightarrow> n \<in> set names \<Longrightarrow>
   \<exists>xs. body n (types_get types n) = Inr xs"
  by (induction names arbitrary: acc) (auto split: sum.splits)

lemma merge_loop_fails:
  "n \<in> set names \<Longrightarrow> body n (types_get types n) = Inl e \<Longrightarrow>
   \<exists>e'. merge_loop body types names acc = Inl e'"
  by (induction names arbitrary: acc) (auto split: sum.splits)

lemma merge_loop_error_origin:
  "merge_loop body types names acc = Inl e \<Longrightarrow>
   \<exists>n \<in> set names. body n (types_get types n) = Inl e"
  by (induction names arbitrary: acc) (auto split: sum.splits)

lemma merge_loop_first_error:
  assumes "sorted names" "distinct names" "n \<in> set names"
    and "body n (types_get types n) = Inl e" "P e"
    and "\<And>m e'. m \<in> set names \<Longrightarrow> m < n \<Longrightarrow> body m (types_get types m) = Inl e' \<Longrightarrow> P e'"
  shows "\<exists>e'. merge_loop body types names acc = Inl e' \<and> P e'"
  using assms
proof (induction names arbitrary: acc)
  case Nil
  then show ?case by simp
next
  case (Cons m names)
  show ?case
  proof (cases "m = n")
    case True
    with Cons.prems show ?thesis by simp
  next
    case False
    with Cons.prems have lt: "m < n" and mem: "n \<in> set names" by auto
    show ?thesis
    proof (cases "body m (types_get types m)")
      case (Inl e')
      with Cons.prems(6) [of m e'] lt show ?thesis by simp
    next
      case (Inr xs)
      have "\<exists>e'. merge_loop body types names (acc @ xs) = Inl e' \<and> P e'"
        using Cons.prems mem by (intro Cons.IH) auto
      with Inr show ?thesis by simp
    qed
  qed
qed

lemma merge_by_name_unfold:
  "merge_by_name nm body a b =
     merge_loop body (group_by_name nm a b) (sorted_names (group_by_name nm a b)) []"
  by (simp add: merge_by_name_def Let_def)

lemma merge_by_name_mem:
  assumes "merge_by_name nm body a b = Inr res"
  shows "x \<in> set res \<longleftrightarrow>
     (\<exists>n \<in> nm ` set (a @ b). \<exists>xs. body n (filter (\<lambda>y. nm y = n) (a @ b)) = Inr xs \<and> x \<in> set xs)"
  using merge_loop_mem [where body = body and acc = "[]" and x = x,
      OF assms [unfolded merge_by_name_unfold]]
  by (simp only: set_sorted_names types_get_group) simp

lemma merge_by_name_all_ok:
  assumes "merge_by_name nm body a b = Inr res" and "y \<in> set (a @ b)"
  shows "\<exists>xs. body (nm y) (filter (\<lambda>z. nm z = nm y) (a @ b)) = Inr xs"
proof -
  have "nm y \<in> set (sorted_names (group_by_name nm a b))"
    using assms(2) by (simp only: set_sorted_names) blast
  from merge_loop_all_ok [where body = body, OF assms(1) [unfolded merge_by_name_unfold] this]
  show ?thesis by (simp only: types_get_group)
qed

section \<open>Properties of mergeInputFields\<close>

lemma mergeInputFields_body_lone:
  "isNonNull (in_Type f) \<Longrightarrow>
   mergeInputFields_body mode n [f] = Inl (NewFieldNonNull n (in_Type f))"
  by (cases "in_Type f") auto

text \<open>
  Claim C4, amended. If a field name occurs exactly once in the two lists together and that
  occurrence has a \<^verbatim>\<open>NON_NULL\<close> type, then \<open>mergeInputFields\<close> fails, in every mode. The loop
  visits the names in sorted order and returns at the first failure, so the error is
  \<^verbatim>\<open>new field ... is non-null\<close> when no name that sorts earlier fails in another way.
\<close>

theorem mergeInputFields_new_non_null:
  assumes occ: "filter (\<lambda>x. in_Name x = n) (a @ b) = [f]" and nn: "isNonNull (in_Type f)"
  shows "(\<exists>e. mergeInputFields a b mode = Inl e) \<and>
         (earlier_names_merge a b n \<longrightarrow>
            (\<exists>n' t. mergeInputFields a b mode = Inl (NewFieldNonNull n' t)))"
proof -
  let ?types = "group_by_name in_Name a b"
  let ?names = "sorted_names ?types"
  let ?body = "mergeInputFields_body mode"
  have "f \<in> set (filter (\<lambda>x. in_Name x = n) (a @ b))"
    using occ by simp
  then have "n \<in> in_Name ` set (a @ b)"
    by auto
  then have mem: "n \<in> set ?names"
    by (simp only: set_sorted_names)
  have fail: "?body n (types_get ?types n) = Inl (NewFieldNonNull n (in_Type f))"
    using occ mergeInputFields_body_lone [OF nn, of mode n] by (simp only: types_get_group)
  have first: "\<exists>e. mergeInputFields a b mode = Inl e"
    using merge_loop_fails [where body = "?body" and acc = "[]", OF mem fail]
    by (simp add: mergeInputFields_def merge_by_name_unfold)
  have second: "\<exists>n' t. mergeInputFields a b mode = Inl (NewFieldNonNull n' t)"
    if ok: "earlier_names_merge a b n"
  proof -
    have earlier: "\<exists>n' t. e' = NewFieldNonNull n' t"
      if m: "m \<in> set ?names" and lt: "m < n" and e': "?body m (types_get ?types m) = Inl e'"
      for m e'
    proof -
      let ?p = "filter (\<lambda>x. in_Name x = m) (a @ b)"
      from m have "m \<in> set (map in_Name (a @ b))"
        by (simp only: set_sorted_names set_map)
      with ok lt have c: "case ?p of [] \<Rightarrow> True | [x] \<Rightarrow> in_Type x \<noteq> nil_ref
          | x # y # rest \<Rightarrow> \<not> isl (mergeTypeRefs (in_Type x) (in_Type y) True)"
        unfolding earlier_names_merge_def by blast
      from e' have b: "?body m ?p = Inl e'"
        by (simp add: types_get_group)
      show ?thesis
      proof (cases ?p)
        case Nil
        with m show ?thesis
          by (auto simp: set_sorted_names filter_empty_conv)
      next
        case (Cons x rest)
        show ?thesis
        proof (cases rest)
          case Nil
          with Cons c b show ?thesis
            by (cases "in_Type x") (auto split: if_splits)
        next
          case (Cons y rest')
          with \<open>?p = x # rest\<close> c b show ?thesis
            by (auto split: sum.splits)
        qed
      qed
    qed
    have "\<exists>e'. merge_loop ?body ?types ?names [] = Inl e' \<and> (\<exists>n' t. e' = NewFieldNonNull n' t)"
    proof (rule merge_loop_first_error [where body = "?body" and n = n
          and P = "\<lambda>e. \<exists>n' t. e = NewFieldNonNull n' t"])
      show "sorted ?names" by (rule sorted_sorted_names)
      show "distinct ?names" by (rule distinct_sorted_names)
      show "n \<in> set ?names" by (rule mem)
      show "?body n (types_get ?types n) = Inl (NewFieldNonNull n (in_Type f))" by (rule fail)
      show "\<exists>n' t. NewFieldNonNull n (in_Type f) = NewFieldNonNull n' t" by blast
    qed (rule earlier)
    then show ?thesis
      by (auto simp: mergeInputFields_def merge_by_name_unfold)
  qed
  from first second show ?thesis by blast
qed

text \<open>
  The claim as stated fails: \<^verbatim>\<open>z\<close> occurs once, with type \<^verbatim>\<open>Int!\<close>, but \<^verbatim>\<open>a\<close> sorts first and
  has incompatible types, and that is the error returned.
\<close>

theorem mergeInputFields_new_non_null_counterexample:
  "filter (\<lambda>x. in_Name x = ''z'') (ex4_a @ ex4_b) = [\<lparr>in_Name = ''z'', in_Type = tNonNull tInt\<rparr>] \<and>
   isNonNull (tNonNull tInt) \<and>
   mergeInputFields ex4_a ex4_b Union_mode
     = Inl (IncompatibleInputTypes ''a'' tInt tString TypesMustBeIdentical)"
  by code_simp

theorem mergeInputFields_new_non_null_witness:
  "filter (\<lambda>x. in_Name x = ''z'') (ex4_a @ ex4_c) = [\<lparr>in_Name = ''z'', in_Type = tNonNull tInt\<rparr>] \<and>
   isNonNull (tNonNull tInt) \<and>
   earlier_names_merge ex4_a ex4_c ''z'' \<and>
   (\<exists>n' t. mergeInputFields ex4_a ex4_c Intersection = Inl (NewFieldNonNull n' t))"
proof -
  have occ: "filter (\<lambda>x. in_Name x = ''z'') (ex4_a @ ex4_c)
      = [\<lparr>in_Name = ''z'', in_Type = tNonNull tInt\<rparr>]"
    by code_simp
  have nn: "isNonNull (in_Type \<lparr>in_Name = ''z'', in_Type = tNonNull tInt\<rparr>)"
    by code_simp
  have ok: "earlier_names_merge ex4_a ex4_c ''z''"
    by code_simp
  from mergeInputFields_new_non_null [OF occ nn, of Intersection] ok nn occ
  show ?thesis by simp
qed

section \<open>Properties of mergeSchemaSlice\<close>

lemma merge_step_Inl: "merge_step mode (Inl e) x = Inl e"
  by (simp add: merge_step_def)

lemma merge_step_Inr: "merge_step mode (Inr m) x = mergeSchemas m x mode"
  by (simp add: merge_step_def)

lemma foldl_merge_step_Inl: "foldl (merge_step mode) (Inl e) rest = Inl e"
  by (induction rest) (simp_all add: merge_step_Inl)

lemma mergeSchemaSlice_loop_foldl:
  "mergeSchemaSlice_loop mode s rest = foldl (merge_step mode) (Inr s) rest"
proof (induction rest arbitrary: s)
  case Nil
  show ?case by simp
next
  case (Cons x rest)
  show ?case
  proof (cases "mergeSchemas s x mode")
    case (Inl e)
    then show ?thesis by (simp add: merge_step_Inr foldl_merge_step_Inl)
  next
    case (Inr m)
    then show ?thesis by (simp add: merge_step_Inr Cons.IH)
  qed
qed

lemma wrapErr_cases: "wrapErr w e = Panic \<or> wrapErr w e = w e"
  by (simp add: wrapErr_def)

lemma mergeSchemas_body_error:
  "mergeSchemas_body mode n p = Inl e \<Longrightarrow> e = Panic \<or> (\<exists>e'. e = CantMergeType n e')"
proof (induction mode n p rule: mergeSchemas_body.induct)
  case (3 mode name p0 p1 rest)
  then show ?case
    using wrapErr_cases [of "CantMergeType name"] by (auto split: sum.splits)
qed (auto split: if_splits)

lemma mergeSchemas_error:
  assumes "mergeSchemas a b mode = Inl e"
  shows "e = Panic \<or> (\<exists>n e'. e = CantMergeType n e')"
proof (cases a)
  case None
  with assms show ?thesis by (simp add: mergeSchemas_def)
next
  case (Some a')
  show ?thesis
  proof (cases b)
    case None
    with Some assms show ?thesis by (simp add: mergeSchemas_def)
  next
    case (Some b')
    with \<open>a = Some a'\<close> assms
    have "merge_by_name ty_Name (mergeSchemas_body mode) (Types (Schema a')) (Types (Schema b')) = Inl e"
      by (simp add: mergeSchemas_def split: sum.splits)
    from merge_loop_error_origin [OF this [unfolded merge_by_name_unfold]]
    obtain n p where "mergeSchemas_body mode n p = Inl e" by blast
    from mergeSchemas_body_error [OF this] show ?thesis by blast
  qed
qed

lemma mergeSchemaSlice_loop_not_NoSchemas:
  "mergeSchemaSlice_loop mode s rest \<noteq> Inl NoSchemas"
proof (induction rest arbitrary: s)
  case Nil
  show ?case by simp
next
  case (Cons x rest)
  show ?case
  proof (cases "mergeSchemas s x mode")
    case (Inl e)
    with mergeSchemas_error [OF Inl] show ?thesis by auto
  next
    case (Inr m)
    with Cons.IH show ?thesis by simp
  qed
qed

text \<open>
  Claim C7. \<open>mergeSchemaSlice\<close> fails with \<^verbatim>\<open>no schemas\<close> exactly on the empty list, and on
  \<open>s # rest\<close> it is the left fold of \<open>mergeSchemas\<close> over \<open>rest\<close> that starts from \<open>s\<close> and
  keeps the first error.
\<close>

theorem mergeSchemaSlice_fold:
  "(mergeSchemaSlice schemas mode = Inl NoSchemas \<longleftrightarrow> schemas = []) \<and>
   mergeSchemaSlice (s # rest) mode = foldl (merge_step mode) (Inr s) rest"
proof (cases schemas)
  case Nil
  then show ?thesis by (simp add: mergeSchemaSlice_def mergeSchemaSlice_loop_foldl)
next
  case (Cons s' rest')
  then show ?thesis
    using mergeSchemaSlice_loop_not_NoSchemas [of mode s' rest']
    by (simp add: mergeSchemaSlice_def mergeSchemaSlice_loop_foldl)
qed

text \<open>
  Claim C9. On a one-element list \<open>mergeSchemaSlice\<close> returns the element itself, whatever it
  is and whatever the mode: nothing is merged, checked or sorted. Two schemas that a merge
  of two schemas rejects, one with two types of the same name and one with a lone
  \<^verbatim>\<open>NON_NULL\<close> input field, come back unchanged.
\<close>

theorem mergeSchemaSlice_single:
  "mergeSchemaSlice [s] mode = Inr s \<and>
   mergeSchemas ex9_dup (schema_of []) mode
     = Inl (CantMergeType ''X'' (ConflictingKinds ''SCALAR'' ''OBJECT'')) \<and>
   mergeSchemaSlice [ex9_dup] mode = Inr ex9_dup \<and>
   mergeSchemas ex9_lone (schema_of [inputObjectType ''In'' []]) mode
     = Inl (CantMergeType ''In''
         (MergingInputFields (NewFieldNonNull ''x'' (tNonNull tInt)))) \<and>
   mergeSchemaSlice [ex9_lone] mode = Inr ex9_lone"
proof -
  have 1: "mergeSchemaSlice [s] mode = Inr s" for s
    by (simp add: mergeSchemaSlice_def)
  have 2: "mergeSchemas ex9_dup (schema_of []) mode
     = Inl (CantMergeType ''X'' (ConflictingKinds ''SCALAR'' ''OBJECT''))"
    by (simp add: mergeSchemas_def ex9_dup_def schema_of_def scalarType_def objectType_def
        merge_by_name_unfold group_by_name_def types_append_def types_get_def sorted_names_def
        mergeTypes_def wrapErr_def)
  have 3: "mergeSchemas ex9_lone (schema_of [inputObjectType ''In'' []]) mode
     = Inl (CantMergeType ''In'' (MergingInputFields (NewFieldNonNull ''x'' (tNonNull tInt))))"
    by (simp add: mergeSchemas_def ex9_lone_def schema_of_def inputObjectType_def
        merge_by_name_unfold group_by_name_def types_append_def types_get_def sorted_names_def
        mergeTypes_def mergeInputFields_def wrapErr_def tNonNull_def)
  from 1 2 3 show ?thesis by simp
qed

section \<open>Occurrences of a name, and merging in the other order\<close>

lemma filter_distinct_cases:
  "distinct (map nm a) \<Longrightarrow>
   (filter (\<lambda>x. nm x = n) a = [] \<and> n \<notin> nm ` set a) \<or>
   (\<exists>x \<in> set a. nm x = n \<and> filter (\<lambda>x. nm x = n) a = [x])"
proof (induction a)
  case Nil
  show ?case by simp
next
  case (Cons y a)
  then have d: "distinct (map nm a)" and ny: "nm y \<notin> nm ` set a" by auto
  show ?case
  proof (cases "nm y = n")
    case True
    with ny have "filter (\<lambda>x. nm x = n) a = []"
      by (auto simp: filter_empty_conv image_iff)
    with True show ?thesis by simp
  next
    case False
    with Cons.IH [OF d] show ?thesis by auto
  qed
qed

text \<open>With no name repeated on a side, a name occurs once on one side or once on each.\<close>

lemma occurrences_cases:
  assumes "distinct (map nm a)" "distinct (map nm b)" "n \<in> nm ` set (a @ b)"
  shows "(\<exists>xa \<in> set a. nm xa = n \<and> n \<notin> nm ` set b \<and> filter (\<lambda>x. nm x = n) (a @ b) = [xa]) \<or>
         (\<exists>xb \<in> set b. nm xb = n \<and> n \<notin> nm ` set a \<and> filter (\<lambda>x. nm x = n) (a @ b) = [xb]) \<or>
         (\<exists>xa \<in> set a. \<exists>xb \<in> set b. nm xa = n \<and> nm xb = n \<and>
            filter (\<lambda>x. nm x = n) (a @ b) = [xa, xb])"
  using filter_distinct_cases [OF assms(1), of n] filter_distinct_cases [OF assms(2), of n] assms(3)
  by auto

lemma merge_by_name_part:
  assumes "merge_by_name nm body a b = Inr res" and "n \<in> nm ` set (a @ b)"
  shows "\<exists>xs. body n (filter (\<lambda>x. nm x = n) (a @ b)) = Inr xs \<and> set xs \<subseteq> set res"
proof -
  from assms(2) obtain y where y: "y \<in> set (a @ b)" "nm y = n" by auto
  from merge_by_name_all_ok [OF assms(1) y(1)] y(2)
  obtain xs where xs: "body n (filter (\<lambda>x. nm x = n) (a @ b)) = Inr xs" by auto
  have "x \<in> set res" if "x \<in> set xs" for x
    using merge_by_name_mem [OF assms(1), of x] xs that assms(2) by blast
  with xs show ?thesis by blast
qed

lemma merge_by_name_origin:
  assumes "merge_by_name nm body a b = Inr res" and "x \<in> set res"
  shows "\<exists>n \<in> nm ` set (a @ b). \<exists>xs.
           body n (filter (\<lambda>y. nm y = n) (a @ b)) = Inr xs \<and> x \<in> set xs"
  using merge_by_name_mem [OF assms(1), of x] assms(2) by blast

text \<open>
  When a single occurrence contributes nothing (any mode other than union), every merged
  element comes from a pair, one element of each side.
\<close>

lemma merge_by_name_from_pair:
  assumes m: "merge_by_name nm body a b = Inr res"
    and da: "distinct (map nm a)" and db: "distinct (map nm b)"
    and single: "\<And>n y xs. body n [y] = Inr xs \<Longrightarrow> xs = []"
    and x: "x \<in> set res"
  shows "\<exists>xa \<in> set a. \<exists>xb \<in> set b. \<exists>xs. nm xb = nm xa \<and>
           body (nm xa) [xa, xb] = Inr xs \<and> x \<in> set xs"
proof -
  from merge_by_name_origin [OF m x] obtain n xs where
    n: "n \<in> nm ` set (a @ b)" and
    b: "body n (filter (\<lambda>y. nm y = n) (a @ b)) = Inr xs" and xs: "x \<in> set xs"
    by blast
  from occurrences_cases [OF da db n] show ?thesis
  proof (elim disjE bexE conjE)
    fix xa assume "filter (\<lambda>x. nm x = n) (a @ b) = [xa]"
    with b single [of n xa xs] xs show ?thesis by simp
  next
    fix xb assume "filter (\<lambda>x. nm x = n) (a @ b) = [xb]"
    with b single [of n xb xs] xs show ?thesis by simp
  next
    fix xa xb
    assume "xa \<in> set a" "xb \<in> set b" "nm xa = n" "nm xb = n"
      "filter (\<lambda>x. nm x = n) (a @ b) = [xa, xb]"
    with b xs show ?thesis by auto
  qed
qed

text \<open>
  When the body keeps the name it works on (every mode does on a pair; union mode does on a
  single occurrence too), every name of either side is a name of the merged list.
\<close>

lemma merge_by_name_keeps_names:
  assumes m: "merge_by_name nm body a b = Inr res"
    and keep: "\<And>n p xs. p \<noteq> [] \<Longrightarrow> \<forall>z \<in> set p. nm z = n \<Longrightarrow> body n p = Inr xs
        \<Longrightarrow> n \<in> nm' ` set xs"
    and y: "y \<in> set (a @ b)"
  shows "nm y \<in> nm' ` set res"
proof -
  let ?p = "filter (\<lambda>x. nm x = nm y) (a @ b)"
  have n: "nm y \<in> nm ` set (a @ b)" using y by blast
  from merge_by_name_part [OF m n] obtain xs where
    b: "body (nm y) ?p = Inr xs" and sub: "set xs \<subseteq> set res" by blast
  have "?p \<noteq> []"
    using y by (simp only: filter_empty_conv) blast
  moreover have "\<forall>z \<in> set ?p. nm z = nm y" by auto
  ultimately have "nm y \<in> nm' ` set xs" using b by (rule keep)
  with sub show ?thesis by blast
qed

text \<open>
  Merging in the other order: the names come out in the same sorted order, and when the
  body treats a pair symmetrically up to a projection \<open>g\<close>, the two merged lists agree
  under \<open>g\<close>.
\<close>

lemma merge_loop_related:
  assumes "merge_loop body types names acc = Inr res"
    and "merge_loop body' types' names acc' = Inr res'"
    and "map g acc = map g acc'"
    and "\<And>n xs xs'. n \<in> set names \<Longrightarrow> body n (types_get types n) = Inr xs \<Longrightarrow>
           body' n (types_get types' n) = Inr xs' \<Longrightarrow> map g xs = map g xs'"
  shows "map g res = map g res'"
  using assms
proof (induction names arbitrary: acc acc')
  case Nil
  then show ?case by simp
next
  case (Cons n names)
  from Cons.prems(1) obtain xs where
    b: "body n (types_get types n) = Inr xs" and
    r: "merge_loop body types names (acc @ xs) = Inr res"
    by (auto split: sum.splits)
  from Cons.prems(2) obtain xs' where
    b': "body' n (types_get types' n) = Inr xs'" and
    r': "merge_loop body' types' names (acc' @ xs') = Inr res'"
    by (auto split: sum.splits)
  have "map g xs = map g xs'"
    using Cons.prems(4) [OF _ b b'] by simp
  with Cons.prems(3) have "map g (acc @ xs) = map g (acc' @ xs')" by simp
  with r r' show ?case
    using Cons.prems(4) by (intro Cons.IH [of "acc @ xs" "acc' @ xs'"]) auto
qed

lemma merge_by_name_commute:
  assumes m1: "merge_by_name nm body a b = Inr res"
    and m2: "merge_by_name nm body b a = Inr res'"
    and da: "distinct (map nm a)" and db: "distinct (map nm b)"
    and pair: "\<And>n x y xs xs'. x \<in> set a \<Longrightarrow> y \<in> set b \<Longrightarrow> nm x = n \<Longrightarrow> nm y = n \<Longrightarrow>
        body n [x, y] = Inr xs \<Longrightarrow> body n [y, x] = Inr xs' \<Longrightarrow> map g xs = map g xs'"
  shows "map g res = map g res'"
proof -
  let ?names = "sorted_names (group_by_name nm a b)"
  have m2': "merge_loop body (group_by_name nm b a) ?names [] = Inr res'"
    using m2 by (simp only: merge_by_name_unfold sorted_names_commute [of nm a b])
  show ?thesis
  proof (rule merge_loop_related [OF m1 [unfolded merge_by_name_unfold] m2'])
    show "map g [] = map g []" by simp
  next
    fix n xs xs'
    assume n: "n \<in> set ?names"
      and b1: "body n (types_get (group_by_name nm a b) n) = Inr xs"
      and b2: "body n (types_get (group_by_name nm b a) n) = Inr xs'"
    from n have n': "n \<in> nm ` set (a @ b)" by (simp only: set_sorted_names)
    then have n'': "n \<in> nm ` set (b @ a)" by auto
    from b1 have c1: "body n (filter (\<lambda>x. nm x = n) (a @ b)) = Inr xs"
      by (simp only: types_get_group)
    from b2 have c2: "body n (filter (\<lambda>x. nm x = n) (b @ a)) = Inr xs'"
      by (simp only: types_get_group)
    from filter_distinct_cases [OF da, of n] filter_distinct_cases [OF db, of n] n'
    show "map g xs = map g xs'"
    proof (elim disjE conjE bexE)
      assume "filter (\<lambda>x. nm x = n) a = []" "filter (\<lambda>x. nm x = n) b = []"
        "n \<notin> nm ` set a" "n \<notin> nm ` set b"
      with n' show ?thesis by auto
    next
      fix y assume "filter (\<lambda>x. nm x = n) a = []" "filter (\<lambda>x. nm x = n) b = [y]"
      with c1 c2 show ?thesis by simp
    next
      fix x assume "filter (\<lambda>x. nm x = n) a = [x]" "filter (\<lambda>x. nm x = n) b = []"
      with c1 c2 show ?thesis by simp
    next
      fix x y
      assume "x \<in> set a" "nm x = n" "filter (\<lambda>x. nm x = n) a = [x]"
        "y \<in> set b" "nm y = n" "filter (\<lambda>x. nm x = n) b = [y]"
      with c1 c2 pair [of x y n xs xs'] show ?thesis by simp
    qed
  qed
qed

lemma mergeTypeRefs_commute:
  "mergeTypeRefs a b isInput = Inr r \<Longrightarrow> mergeTypeRefs b a isInput = Inr r"
proof (induction a b isInput arbitrary: r rule: mergeTypeRefs.induct)
  case (1 b isInput)
  then show ?case by simp
next
  case (2 ak an ao isInput)
  then show ?case by simp
next
  case (3 ak an ao bk bn bo isInput)
  show ?case
  proof (cases "ak = ''NON_NULL'' \<or> bk = ''NON_NULL''")
    case True
    let ?a = "if ak = ''NON_NULL'' then ao else TypeRef ak an ao"
    let ?b = "if bk = ''NON_NULL'' then bo else TypeRef bk bn bo"
    from True "3.prems" obtain merged where
      m: "mergeTypeRefs ?a ?b isInput = Inr merged" and
      r: "r = (if isInput \<or> (ak = ''NON_NULL'' \<and> bk = ''NON_NULL'')
               then TypeRef ''NON_NULL'' [] merged else merged)"
      by (auto simp: mergeTypeRefs.simps(3) Let_def split: if_splits sum.splits)
    have "mergeTypeRefs ?b ?a isInput = Inr merged"
      using "3.IH"(1) [OF refl refl refl refl True m] .
    with True r show ?thesis
      by (auto simp: mergeTypeRefs.simps(3) Let_def)
  next
    case False
    show ?thesis
    proof (cases "ak = ''LIST'' \<and> bk = ''LIST''")
      case True
      with False "3.prems" obtain inner where
        m: "mergeTypeRefs ao bo isInput = Inr inner" and r: "r = TypeRef ''LIST'' [] inner"
        by (auto simp: mergeTypeRefs.simps(3) Let_def split: if_splits sum.splits)
      have "mergeTypeRefs bo ao isInput = Inr inner"
        using "3.IH"(2) [OF refl refl refl refl False _ _ _ m] True by simp
      with True r show ?thesis
        by (simp add: mergeTypeRefs.simps(3))
    next
      case notlist: False
      with False "3.prems" show ?thesis
        by (auto simp: mergeTypeRefs.simps(3) Let_def split: if_splits)
    qed
  qed
qed

section \<open>Properties of the loop bodies\<close>

lemma Intersection_not_Union: "Intersection \<noteq> Union_mode"
  by (simp add: Intersection_def Union_mode_def)

lemma first_wins_single: "mode \<noteq> Union_mode \<Longrightarrow> first_wins mode n [y] = Inr xs \<Longrightarrow> xs = []"
  by simp

lemma mergeInputFields_body_single:
  "mode \<noteq> Union_mode \<Longrightarrow> mergeInputFields_body mode n [y] = Inr xs \<Longrightarrow> xs = []"
  by (cases "in_Type y") (auto split: if_splits)

lemma mergeFields_body_single:
  "mode \<noteq> Union_mode \<Longrightarrow> mergeFields_body mode n [y] = Inr xs \<Longrightarrow> xs = []"
  by simp

lemma mergeSchemas_body_single:
  "mode \<noteq> Union_mode \<Longrightarrow> mergeSchemas_body mode n [y] = Inr xs \<Longrightarrow> xs = []"
  by simp

lemma mergeInputFields_body_pair:
  "mergeInputFields_body mode n (x # y # rest) = Inr xs \<Longrightarrow>
   \<exists>m. mergeTypeRefs (in_Type x) (in_Type y) True = Inr m \<and> xs = [\<lparr>in_Name = n, in_Type = m\<rparr>]"
  by (auto split: sum.splits)

lemma mergeFields_body_pair:
  "mergeFields_body mode n (x # y # rest) = Inr xs \<Longrightarrow>
   \<exists>typ args. mergeTypeRefs (fld_Type x) (fld_Type y) False = Inr typ \<and>
      mergeInputFields (fld_Args x) (fld_Args y) mode = Inr args \<and>
      xs = [\<lparr>fld_Name = n, fld_Type = typ, fld_Args = args\<rparr>]"
  by (auto split: sum.splits)

lemma mergeSchemas_body_pair:
  "mergeSchemas_body mode n (x # y # rest) = Inr xs \<Longrightarrow>
   \<exists>t. mergeTypes x y mode = Inr t \<and> xs = [t]"
  by (auto split: sum.splits)

lemma nonempty_cases:
  assumes "p \<noteq> []"
  obtains (single) x where "p = [x]" | (pair) x y rest where "p = x # y # rest"
  using assms by (cases p; cases "tl p") auto

lemma first_wins_keeps:
  assumes "p \<noteq> []" "\<forall>z \<in> set p. nm z = n" "first_wins Union_mode n p = Inr xs"
  shows "n \<in> nm ` set xs"
  using assms(1)
proof (cases rule: nonempty_cases)
  case (single x)
  with assms show ?thesis by auto
next
  case (pair x y rest)
  with assms show ?thesis by auto
qed

lemma mergeInputFields_body_keeps:
  assumes "p \<noteq> []" "\<forall>z \<in> set p. in_Name z = n" "mergeInputFields_body Union_mode n p = Inr xs"
  shows "n \<in> in_Name ` set xs"
  using assms(1)
proof (cases rule: nonempty_cases)
  case (single x)
  with assms show ?thesis by (cases "in_Type x") (auto split: if_splits)
next
  case (pair x y rest)
  with assms(3) mergeInputFields_body_pair [of Union_mode n x y rest xs] show ?thesis by auto
qed

lemma mergeFields_body_keeps:
  assumes "p \<noteq> []" "\<forall>z \<in> set p. fld_Name z = n" "mergeFields_body Union_mode n p = Inr xs"
  shows "n \<in> fld_Name ` set xs"
  using assms(1)
proof (cases rule: nonempty_cases)
  case (single x)
  with assms show ?thesis by auto
next
  case (pair x y rest)
  with assms(3) mergeFields_body_pair [of Union_mode n x y rest xs] show ?thesis by auto
qed



section \<open>Properties of mergeTypes\<close>

lemma mergeTypes_conflict:
  "ty_Kind a \<noteq> ty_Kind b \<Longrightarrow> mergeTypes a b mode = Inl (ConflictingKinds (ty_Kind a) (ty_Kind b))"
  unfolding mergeTypes_def by (rule if_P)

lemma mergeTypes_kinds:
  assumes "mergeTypes a b mode = Inr t"
  shows "ty_Kind b = ty_Kind a"
proof (rule ccontr)
  assume "ty_Kind b \<noteq> ty_Kind a"
  then have "ty_Kind a \<noteq> ty_Kind b" by simp
  from mergeTypes_conflict [OF this, of mode] assms show False by simp
qed

lemma mergeTypes_OBJECT:
  assumes "ty_Kind a = ''OBJECT''" "ty_Kind b = ''OBJECT''"
  shows "mergeTypes a b mode =
     (case mergeFields (Fields a) (Fields b) mode of
        Inl err \<Rightarrow> Inl (wrapErr MergingFields err)
      | Inr flds \<Rightarrow> Inr \<lparr>ty_Name = ty_Name a, ty_Kind = ''OBJECT'', Fields = flds, InputFields = [],
                      PossibleTypes = [], EnumValues = []\<rparr>)"
  using assms by (cases "mergeFields (Fields a) (Fields b) mode") (simp_all add: mergeTypes_def)

lemma mergeTypes_INPUT_OBJECT:
  assumes "ty_Kind a = ''INPUT_OBJECT''" "ty_Kind b = ''INPUT_OBJECT''"
  shows "mergeTypes a b mode =
     (case mergeInputFields (InputFields a) (InputFields b) mode of
        Inl err \<Rightarrow> Inl (wrapErr MergingInputFields err)
      | Inr fs \<Rightarrow> Inr \<lparr>ty_Name = ty_Name a, ty_Kind = ''INPUT_OBJECT'', Fields = [], InputFields = fs,
                    PossibleTypes = [], EnumValues = []\<rparr>)"
  using assms
  by (cases "mergeInputFields (InputFields a) (InputFields b) mode") (simp_all add: mergeTypes_def)

lemma mergeTypes_UNION:
  assumes "ty_Kind a = ''UNION''" "ty_Kind b = ''UNION''"
  shows "mergeTypes a b mode =
     (case mergePossibleTypes (PossibleTypes a) (PossibleTypes b) mode of
        Inl err \<Rightarrow> Inl (wrapErr MergingPossibleTypes err)
      | Inr ps \<Rightarrow> Inr \<lparr>ty_Name = ty_Name a, ty_Kind = ''UNION'', Fields = [], InputFields = [],
                    PossibleTypes = ps, EnumValues = []\<rparr>)"
  using assms
  by (cases "mergePossibleTypes (PossibleTypes a) (PossibleTypes b) mode")
    (simp_all add: mergeTypes_def)

lemma mergeTypes_ENUM:
  assumes "ty_Kind a = ''ENUM''" "ty_Kind b = ''ENUM''"
  shows "mergeTypes a b mode =
     (case mergeEnumValues (EnumValues a) (EnumValues b) mode of
        Inl err \<Rightarrow> Inl (wrapErr MergingEnumValues err)
      | Inr vs \<Rightarrow> Inr \<lparr>ty_Name = ty_Name a, ty_Kind = ''ENUM'', Fields = [], InputFields = [],
                    PossibleTypes = [], EnumValues = vs\<rparr>)"
  using assms
  by (cases "mergeEnumValues (EnumValues a) (EnumValues b) mode") (simp_all add: mergeTypes_def)

lemma mergeTypes_SCALAR:
  assumes "ty_Kind a = ''SCALAR''" "ty_Kind b = ''SCALAR''"
  shows "mergeTypes a b mode =
     Inr \<lparr>ty_Name = ty_Name a, ty_Kind = ''SCALAR'', Fields = [], InputFields = [],
          PossibleTypes = [], EnumValues = []\<rparr>"
  using assms by (simp add: mergeTypes_def)

lemma mergeTypes_unknown:
  assumes "ty_Kind a \<notin> {''INPUT_OBJECT'', ''OBJECT'', ''UNION'', ''ENUM'', ''SCALAR''}"
  shows "\<exists>e. mergeTypes a b mode = Inl e"
proof (cases "ty_Kind a = ty_Kind b")
  case False
  from mergeTypes_conflict [OF this] show ?thesis by blast
next
  case True
  define k where "k = ty_Kind a"
  have "ty_Kind a = k" "ty_Kind b = k" using True by (simp_all add: k_def)
  moreover have "k \<noteq> ''INPUT_OBJECT''" "k \<noteq> ''OBJECT''" "k \<noteq> ''UNION''" "k \<noteq> ''ENUM''"
    "k \<noteq> ''SCALAR''"
    using assms by (simp_all add: k_def)
  ultimately have "mergeTypes a b mode = Inl (UnknownKind k)"
    by (simp add: mergeTypes_def Let_def)
  then show ?thesis by blast
qed

lemma mergeTypes_Inr:
  assumes "mergeTypes a b mode = Inr t"
  shows "ty_Name t = ty_Name a \<and> ty_Kind t = ty_Kind a \<and> ty_Kind b = ty_Kind a \<and>
     (if ty_Kind a = ''OBJECT'' then mergeFields (Fields a) (Fields b) mode = Inr (Fields t)
      else Fields t = []) \<and>
     (if ty_Kind a = ''INPUT_OBJECT''
      then mergeInputFields (InputFields a) (InputFields b) mode = Inr (InputFields t)
      else InputFields t = []) \<and>
     (if ty_Kind a = ''ENUM''
      then mergeEnumValues (EnumValues a) (EnumValues b) mode = Inr (EnumValues t)
      else EnumValues t = []) \<and>
     (if ty_Kind a = ''UNION''
      then mergePossibleTypes (PossibleTypes a) (PossibleTypes b) mode = Inr (PossibleTypes t)
      else PossibleTypes t = [])"
proof -
  note k = mergeTypes_kinds [OF assms]
  consider (inp) "ty_Kind a = ''INPUT_OBJECT''" | (obj) "ty_Kind a = ''OBJECT''"
    | (uni) "ty_Kind a = ''UNION''" | (enum) "ty_Kind a = ''ENUM''"
    | (scalar) "ty_Kind a = ''SCALAR''"
    | (other) "ty_Kind a \<notin> {''INPUT_OBJECT'', ''OBJECT'', ''UNION'', ''ENUM'', ''SCALAR''}"
    by blast
  then show ?thesis
  proof cases
    case inp
    with k have kb: "ty_Kind b = ''INPUT_OBJECT''" by simp
    from assms [unfolded mergeTypes_INPUT_OBJECT [OF inp kb]] inp kb show ?thesis
      by (cases "mergeInputFields (InputFields a) (InputFields b) mode") auto
  next
    case obj
    with k have kb: "ty_Kind b = ''OBJECT''" by simp
    from assms [unfolded mergeTypes_OBJECT [OF obj kb]] obj kb show ?thesis
      by (cases "mergeFields (Fields a) (Fields b) mode") auto
  next
    case uni
    with k have kb: "ty_Kind b = ''UNION''" by simp
    from assms [unfolded mergeTypes_UNION [OF uni kb]] uni kb show ?thesis
      by (cases "mergePossibleTypes (PossibleTypes a) (PossibleTypes b) mode") auto
  next
    case enum
    with k have kb: "ty_Kind b = ''ENUM''" by simp
    from assms [unfolded mergeTypes_ENUM [OF enum kb]] enum kb show ?thesis
      by (cases "mergeEnumValues (EnumValues a) (EnumValues b) mode") auto
  next
    case scalar
    with k have kb: "ty_Kind b = ''SCALAR''" by simp
    from assms [unfolded mergeTypes_SCALAR [OF scalar kb]] scalar kb show ?thesis
      by auto
  next
    case other
    from mergeTypes_unknown [OF other, of b mode] assms show ?thesis by auto
  qed
qed

lemma mergeSchemas_body_keeps:
  assumes "p \<noteq> []" "\<forall>z \<in> set p. ty_Name z = n" "mergeSchemas_body Union_mode n p = Inr xs"
  shows "n \<in> ty_Name ` set xs"
  using assms(1)
proof (cases rule: nonempty_cases)
  case (single x)
  with assms show ?thesis by auto
next
  case (pair x y rest)
  with assms(3) mergeSchemas_body_pair [of Union_mode n x y rest xs] obtain t where
    t: "mergeTypes x y Union_mode = Inr t" and xs: "xs = [t]" by blast
  from mergeTypes_Inr [OF t] have "ty_Name t = ty_Name x" by blast
  moreover from assms(2) pair have "ty_Name x = n" by simp
  ultimately show ?thesis using xs by simp
qed

section \<open>Names kept and dropped by the collection mergers\<close>

lemma ref_names_no_nil: "nil_ref \<notin> set ts \<Longrightarrow> ref_names ts = map ref_Name ts"
  by (induction ts) (auto simp: ref_names_def)

lemma mergePossibleTypes_Inr:
  assumes "mergePossibleTypes a b mode = Inr res"
  shows "nil_ref \<notin> set a" and "nil_ref \<notin> set b"
    and "merge_by_name ref_Name (first_wins mode) a b = Inr res"
  using assms by (auto simp: mergePossibleTypes_def split: if_splits)

lemma first_wins_from: "first_wins mode n p = Inr xs \<Longrightarrow> set xs \<subseteq> set p"
  by (induction mode n p rule: first_wins.induct) (auto split: if_splits)

lemma mergePossibleTypes_no_nil:
  assumes "mergePossibleTypes a b mode = Inr res"
  shows "nil_ref \<notin> set res"
proof
  assume "nil_ref \<in> set res"
  from merge_by_name_origin [OF mergePossibleTypes_Inr(3) [OF assms] this]
  obtain n xs where fw: "first_wins mode n (filter (\<lambda>y. ref_Name y = n) (a @ b)) = Inr xs"
    and "nil_ref \<in> set xs" by blast
  with first_wins_from [OF fw] have "nil_ref \<in> set (filter (\<lambda>y. ref_Name y = n) (a @ b))"
    by blast
  then have "nil_ref \<in> set (a @ b)" by auto
  with mergePossibleTypes_Inr(1,2) [OF assms] show False by simp
qed

subsection \<open>Any mode but union: merged names are names of both sides\<close>

lemma mergeFields_inter:
  assumes m: "mergeFields a b mode = Inr res" and mode: "mode \<noteq> Union_mode"
    and da: "distinct (map fld_Name a)" and db: "distinct (map fld_Name b)"
  shows "set (map fld_Name res) \<subseteq> set (map fld_Name a) \<inter> set (map fld_Name b)"
proof
  fix n assume "n \<in> set (map fld_Name res)"
  then obtain x where x: "x \<in> set res" and n: "n = fld_Name x" by auto
  from merge_by_name_from_pair [OF m [unfolded mergeFields_def] da db _ x]
    mergeFields_body_single [OF mode]
  obtain xa xb xs where p: "xa \<in> set a" "xb \<in> set b" "fld_Name xb = fld_Name xa"
    and b: "mergeFields_body mode (fld_Name xa) [xa, xb] = Inr xs" and xs: "x \<in> set xs"
    by blast
  from mergeFields_body_pair [OF b] xs have "fld_Name x = fld_Name xa" by auto
  with p n have "n = fld_Name xa" "n = fld_Name xb" by simp_all
  with p show "n \<in> set (map fld_Name a) \<inter> set (map fld_Name b)"
    unfolding set_map by blast
qed

lemma mergeInputFields_inter:
  assumes m: "mergeInputFields a b mode = Inr res" and mode: "mode \<noteq> Union_mode"
    and da: "distinct (map in_Name a)" and db: "distinct (map in_Name b)"
  shows "set (map in_Name res) \<subseteq> set (map in_Name a) \<inter> set (map in_Name b)"
proof
  fix n assume "n \<in> set (map in_Name res)"
  then obtain x where x: "x \<in> set res" and n: "n = in_Name x" by auto
  from merge_by_name_from_pair [OF m [unfolded mergeInputFields_def] da db _ x]
    mergeInputFields_body_single [OF mode]
  obtain xa xb xs where p: "xa \<in> set a" "xb \<in> set b" "in_Name xb = in_Name xa"
    and b: "mergeInputFields_body mode (in_Name xa) [xa, xb] = Inr xs" and xs: "x \<in> set xs"
    by blast
  from mergeInputFields_body_pair [OF b] xs have "in_Name x = in_Name xa" by auto
  with p n have "n = in_Name xa" "n = in_Name xb" by simp_all
  with p show "n \<in> set (map in_Name a) \<inter> set (map in_Name b)"
    unfolding set_map by blast
qed

lemma first_wins_inter:
  assumes m: "merge_by_name nm (first_wins mode) a b = Inr res" and mode: "mode \<noteq> Union_mode"
    and da: "distinct (map nm a)" and db: "distinct (map nm b)"
  shows "set (map nm res) \<subseteq> set (map nm a) \<inter> set (map nm b)"
proof
  fix n assume "n \<in> set (map nm res)"
  then obtain x where x: "x \<in> set res" and n: "n = nm x" by auto
  from merge_by_name_from_pair [OF m da db _ x] first_wins_single [OF mode]
  obtain xa xb xs where p: "xa \<in> set a" "xb \<in> set b" "nm xb = nm xa"
    and b: "first_wins mode (nm xa) [xa, xb] = Inr xs" and xs: "x \<in> set xs"
    by blast
  from b xs have "x = xa" by auto
  with p n have "n = nm xa" "n = nm xb" by simp_all
  with p show "n \<in> set (map nm a) \<inter> set (map nm b)"
    unfolding set_map by blast
qed

lemma mergeEnumValues_inter:
  assumes "mergeEnumValues a b mode = Inr res" and "mode \<noteq> Union_mode"
    and "distinct (map ev_Name a)" and "distinct (map ev_Name b)"
  shows "set (map ev_Name res) \<subseteq> set (map ev_Name a) \<inter> set (map ev_Name b)"
  using first_wins_inter [OF assms(1) [unfolded mergeEnumValues_def] assms(2-4)] .

lemma mergePossibleTypes_inter:
  assumes m: "mergePossibleTypes a b mode = Inr res" and mode: "mode \<noteq> Union_mode"
    and da: "distinct (ref_names a)" and db: "distinct (ref_names b)"
  shows "set (ref_names res) \<subseteq> set (ref_names a) \<inter> set (ref_names b)"
proof -
  note n = mergePossibleTypes_Inr [OF m] mergePossibleTypes_no_nil [OF m]
  from da db n have "distinct (map ref_Name a)" "distinct (map ref_Name b)"
    by (simp_all add: ref_names_no_nil)
  from first_wins_inter [OF n(3) mode this] n show ?thesis
    by (simp add: ref_names_no_nil)
qed

subsection \<open>Union mode: names of either side are merged names\<close>

lemma mergeFields_union:
  assumes m: "mergeFields a b Union_mode = Inr res"
  shows "set (map fld_Name a) \<union> set (map fld_Name b) \<subseteq> set (map fld_Name res)"
proof -
  have "fld_Name y \<in> fld_Name ` set res" if y: "y \<in> set (a @ b)" for y
  proof (rule merge_by_name_keeps_names [where body = "mergeFields_body Union_mode"
        and nm = fld_Name and nm' = fld_Name and a = a and b = b])
    show "merge_by_name fld_Name (mergeFields_body Union_mode) a b = Inr res"
      using m by (simp only: mergeFields_def)
    show "y \<in> set (a @ b)" by (rule y)
  qed (rule mergeFields_body_keeps)
  then show ?thesis by auto
qed

lemma mergeInputFields_union:
  assumes m: "mergeInputFields a b Union_mode = Inr res"
  shows "set (map in_Name a) \<union> set (map in_Name b) \<subseteq> set (map in_Name res)"
proof -
  have "in_Name y \<in> in_Name ` set res" if y: "y \<in> set (a @ b)" for y
  proof (rule merge_by_name_keeps_names [where body = "mergeInputFields_body Union_mode"
        and nm = in_Name and nm' = in_Name and a = a and b = b])
    show "merge_by_name in_Name (mergeInputFields_body Union_mode) a b = Inr res"
      using m by (simp only: mergeInputFields_def)
    show "y \<in> set (a @ b)" by (rule y)
  qed (rule mergeInputFields_body_keeps)
  then show ?thesis by auto
qed

lemma first_wins_union:
  assumes m: "merge_by_name nm (first_wins Union_mode) a b = Inr res"
  shows "set (map nm a) \<union> set (map nm b) \<subseteq> set (map nm res)"
proof -
  have "nm y \<in> nm ` set res" if y: "y \<in> set (a @ b)" for y
  proof (rule merge_by_name_keeps_names [where body = "first_wins Union_mode"
        and nm = nm and nm' = nm and a = a and b = b])
    show "merge_by_name nm (first_wins Union_mode) a b = Inr res" by (rule m)
    show "y \<in> set (a @ b)" by (rule y)
  qed (rule first_wins_keeps)
  then show ?thesis by auto
qed

lemma mergeEnumValues_union:
  assumes "mergeEnumValues a b Union_mode = Inr res"
  shows "set (map ev_Name a) \<union> set (map ev_Name b) \<subseteq> set (map ev_Name res)"
  using first_wins_union [OF assms [unfolded mergeEnumValues_def]] .

lemma mergePossibleTypes_union:
  assumes m: "mergePossibleTypes a b Union_mode = Inr res"
  shows "set (ref_names a) \<union> set (ref_names b) \<subseteq> set (ref_names res)"
proof -
  note n = mergePossibleTypes_Inr [OF m] mergePossibleTypes_no_nil [OF m]
  from first_wins_union [OF n(3)] show ?thesis
    by (simp only: ref_names_no_nil [OF n(1)] ref_names_no_nil [OF n(2)]
        ref_names_no_nil [OF n(4)])
qed

subsection \<open>Merging in the other order\<close>

lemma mergeInputFields_commute:
  assumes m1: "mergeInputFields a b mode = Inr r1" and m2: "mergeInputFields b a mode = Inr r2"
    and da: "distinct (map in_Name a)" and db: "distinct (map in_Name b)"
  shows "r1 = r2"
proof -
  have "map id r1 = map id r2"
  proof (rule merge_by_name_commute [OF m1 [unfolded mergeInputFields_def]
        m2 [unfolded mergeInputFields_def] da db])
    fix n x y xs xs'
    assume b1: "mergeInputFields_body mode n [x, y] = Inr xs"
      and b2: "mergeInputFields_body mode n [y, x] = Inr xs'"
    from mergeInputFields_body_pair [OF b1] obtain m where
      m: "mergeTypeRefs (in_Type x) (in_Type y) True = Inr m" "xs = [\<lparr>in_Name = n, in_Type = m\<rparr>]"
      by blast
    from mergeInputFields_body_pair [OF b2] obtain m' where
      m': "mergeTypeRefs (in_Type y) (in_Type x) True = Inr m'"
        "xs' = [\<lparr>in_Name = n, in_Type = m'\<rparr>]"
      by blast
    from mergeTypeRefs_commute [OF m(1)] m'(1) have "m = m'" by simp
    with m m' show "map id xs = map id xs'" by simp
  qed
  then show ?thesis by simp
qed

lemma mergeFields_commute:
  assumes m1: "mergeFields a b mode = Inr r1" and m2: "mergeFields b a mode = Inr r2"
    and da: "distinct (map fld_Name a)" and db: "distinct (map fld_Name b)"
  shows "map (\<lambda>f. (fld_Name f, fld_Type f)) r1 = map (\<lambda>f. (fld_Name f, fld_Type f)) r2"
proof (rule merge_by_name_commute [OF m1 [unfolded mergeFields_def]
      m2 [unfolded mergeFields_def] da db])
  fix n x y xs xs'
  assume b1: "mergeFields_body mode n [x, y] = Inr xs"
    and b2: "mergeFields_body mode n [y, x] = Inr xs'"
  from mergeFields_body_pair [OF b1] obtain ty args where
    m: "mergeTypeRefs (fld_Type x) (fld_Type y) False = Inr ty"
      "xs = [\<lparr>fld_Name = n, fld_Type = ty, fld_Args = args\<rparr>]"
    by blast
  from mergeFields_body_pair [OF b2] obtain ty' args' where
    m': "mergeTypeRefs (fld_Type y) (fld_Type x) False = Inr ty'"
      "xs' = [\<lparr>fld_Name = n, fld_Type = ty', fld_Args = args'\<rparr>]"
    by blast
  from mergeTypeRefs_commute [OF m(1)] m'(1) have "ty = ty'" by simp
  with m m' show "map (\<lambda>f. (fld_Name f, fld_Type f)) xs = map (\<lambda>f. (fld_Name f, fld_Type f)) xs'"
    by simp
qed

lemma first_wins_commute:
  assumes m1: "merge_by_name nm (first_wins mode) a b = Inr r1"
    and m2: "merge_by_name nm (first_wins mode) b a = Inr r2"
    and da: "distinct (map nm a)" and db: "distinct (map nm b)"
  shows "map nm r1 = map nm r2"
proof (rule merge_by_name_commute [OF m1 m2 da db])
  fix n x y xs xs'
  assume "nm x = n" "nm y = n" "first_wins mode n [x, y] = Inr xs"
    "first_wins mode n [y, x] = Inr xs'"
  then show "map nm xs = map nm xs'" by auto
qed

lemma mergeEnumValues_commute:
  assumes "mergeEnumValues a b mode = Inr r1" and "mergeEnumValues b a mode = Inr r2"
    and "distinct (map ev_Name a)" and "distinct (map ev_Name b)"
  shows "map ev_Name r1 = map ev_Name r2"
  using first_wins_commute [OF assms(1,2) [unfolded mergeEnumValues_def] assms(3,4)] .

lemma mergePossibleTypes_commute:
  assumes m1: "mergePossibleTypes a b mode = Inr r1" and m2: "mergePossibleTypes b a mode = Inr r2"
    and da: "distinct (ref_names a)" and db: "distinct (ref_names b)"
  shows "ref_names r1 = ref_names r2"
proof -
  note n1 = mergePossibleTypes_Inr [OF m1] mergePossibleTypes_no_nil [OF m1]
  note n2 = mergePossibleTypes_Inr [OF m2] mergePossibleTypes_no_nil [OF m2]
  from da db n1 have "distinct (map ref_Name a)" "distinct (map ref_Name b)"
    by (simp_all add: ref_names_no_nil)
  from first_wins_commute [OF n1(3) n2(3) this] n1 n2 show ?thesis
    by (simp add: ref_names_no_nil)
qed

section \<open>Names of a merged type\<close>

lemma mergeTypes_Name: "mergeTypes a b mode = Inr t \<Longrightarrow> ty_Name t = ty_Name a"
  using mergeTypes_Inr [of a b mode t] by blast

lemma mergeTypes_Kind: "mergeTypes a b mode = Inr t \<Longrightarrow> ty_Kind t = ty_Kind a"
  using mergeTypes_Inr [of a b mode t] by blast

lemma mergeTypes_Fields:
  "mergeTypes a b mode = Inr t \<Longrightarrow> ty_Kind a = ''OBJECT'' \<Longrightarrow>
   mergeFields (Fields a) (Fields b) mode = Inr (Fields t)"
  using mergeTypes_Inr [of a b mode t] by (simp only: if_True)

lemma mergeTypes_Fields_empty:
  "mergeTypes a b mode = Inr t \<Longrightarrow> ty_Kind a \<noteq> ''OBJECT'' \<Longrightarrow> Fields t = []"
  using mergeTypes_Inr [of a b mode t] by (simp only: if_False)

lemma mergeTypes_InputFields:
  "mergeTypes a b mode = Inr t \<Longrightarrow> ty_Kind a = ''INPUT_OBJECT'' \<Longrightarrow>
   mergeInputFields (InputFields a) (InputFields b) mode = Inr (InputFields t)"
  using mergeTypes_Inr [of a b mode t] by (simp only: if_True)

lemma mergeTypes_InputFields_empty:
  "mergeTypes a b mode = Inr t \<Longrightarrow> ty_Kind a \<noteq> ''INPUT_OBJECT'' \<Longrightarrow> InputFields t = []"
  using mergeTypes_Inr [of a b mode t] by (simp only: if_False)

lemma mergeTypes_EnumValues:
  "mergeTypes a b mode = Inr t \<Longrightarrow> ty_Kind a = ''ENUM'' \<Longrightarrow>
   mergeEnumValues (EnumValues a) (EnumValues b) mode = Inr (EnumValues t)"
  using mergeTypes_Inr [of a b mode t] by (simp only: if_True)

lemma mergeTypes_EnumValues_empty:
  "mergeTypes a b mode = Inr t \<Longrightarrow> ty_Kind a \<noteq> ''ENUM'' \<Longrightarrow> EnumValues t = []"
  using mergeTypes_Inr [of a b mode t] by (simp only: if_False)

lemma mergeTypes_PossibleTypes:
  "mergeTypes a b mode = Inr t \<Longrightarrow> ty_Kind a = ''UNION'' \<Longrightarrow>
   mergePossibleTypes (PossibleTypes a) (PossibleTypes b) mode = Inr (PossibleTypes t)"
  using mergeTypes_Inr [of a b mode t] by (simp only: if_True)

lemma mergeTypes_PossibleTypes_empty:
  "mergeTypes a b mode = Inr t \<Longrightarrow> ty_Kind a \<noteq> ''UNION'' \<Longrightarrow> PossibleTypes t = []"
  using mergeTypes_Inr [of a b mode t] by (simp only: if_False)

lemma mergeTypes_inter:
  assumes m: "mergeTypes ta tb mode = Inr t" and mode: "mode \<noteq> Union_mode"
    and da: "distinct_members ta" and db: "distinct_members tb"
  shows "set (fieldNames t) \<subseteq> set (fieldNames ta) \<inter> set (fieldNames tb) \<and>
         set (inputFieldNames t) \<subseteq> set (inputFieldNames ta) \<inter> set (inputFieldNames tb) \<and>
         set (enumValueNames t) \<subseteq> set (enumValueNames ta) \<inter> set (enumValueNames tb) \<and>
         set (possibleTypeNames t) \<subseteq> set (possibleTypeNames ta) \<inter> set (possibleTypeNames tb)"
proof -
  have f: "set (fieldNames t) \<subseteq> set (fieldNames ta) \<inter> set (fieldNames tb)"
  proof (cases "ty_Kind ta = ''OBJECT''")
    case True
    from mergeTypes_Fields [OF m this] have mf: "mergeFields (Fields ta) (Fields tb) mode = Inr (Fields t)" .
    from mergeFields_inter [OF mf mode] da db show ?thesis
      by (simp add: fieldNames_def distinct_members_def)
  next
    case False
    from mergeTypes_Fields_empty [OF m this] show ?thesis by (simp add: fieldNames_def)
  qed
  have i: "set (inputFieldNames t) \<subseteq> set (inputFieldNames ta) \<inter> set (inputFieldNames tb)"
  proof (cases "ty_Kind ta = ''INPUT_OBJECT''")
    case True
    from mergeTypes_InputFields [OF m this] have mf: "mergeInputFields (InputFields ta) (InputFields tb) mode = Inr (InputFields t)" .
    from mergeInputFields_inter [OF mf mode] da db show ?thesis
      by (simp add: inputFieldNames_def distinct_members_def)
  next
    case False
    from mergeTypes_InputFields_empty [OF m this] show ?thesis by (simp add: inputFieldNames_def)
  qed
  have e: "set (enumValueNames t) \<subseteq> set (enumValueNames ta) \<inter> set (enumValueNames tb)"
  proof (cases "ty_Kind ta = ''ENUM''")
    case True
    from mergeTypes_EnumValues [OF m this] have mf: "mergeEnumValues (EnumValues ta) (EnumValues tb) mode = Inr (EnumValues t)" .
    from mergeEnumValues_inter [OF mf mode] da db show ?thesis
      by (simp add: enumValueNames_def distinct_members_def)
  next
    case False
    from mergeTypes_EnumValues_empty [OF m this] show ?thesis by (simp add: enumValueNames_def)
  qed
  have p: "set (possibleTypeNames t) \<subseteq> set (possibleTypeNames ta) \<inter> set (possibleTypeNames tb)"
  proof (cases "ty_Kind ta = ''UNION''")
    case True
    from mergeTypes_PossibleTypes [OF m this] have mf: "mergePossibleTypes (PossibleTypes ta) (PossibleTypes tb) mode = Inr (PossibleTypes t)" .
    from mergePossibleTypes_inter [OF mf mode] da db show ?thesis
      by (simp add: possibleTypeNames_def distinct_members_def)
  next
    case False
    from mergeTypes_PossibleTypes_empty [OF m this] show ?thesis by (simp add: possibleTypeNames_def ref_names_def)
  qed
  from f i e p show ?thesis by blast
qed

lemma mergeTypes_union:
  assumes m: "mergeTypes ta tb Union_mode = Inr t"
    and pa: "populated_by_kind_type ta" and pb: "populated_by_kind_type tb"
  shows "set (fieldNames ta) \<union> set (fieldNames tb) \<subseteq> set (fieldNames t) \<and>
         set (inputFieldNames ta) \<union> set (inputFieldNames tb) \<subseteq> set (inputFieldNames t) \<and>
         set (enumValueNames ta) \<union> set (enumValueNames tb) \<subseteq> set (enumValueNames t) \<and>
         set (possibleTypeNames ta) \<union> set (possibleTypeNames tb) \<subseteq> set (possibleTypeNames t)"
proof -
  note k = mergeTypes_kinds [OF m]
  have f: "set (fieldNames ta) \<union> set (fieldNames tb) \<subseteq> set (fieldNames t)"
  proof (cases "ty_Kind ta = ''OBJECT''")
    case True
    from mergeFields_union [OF mergeTypes_Fields [OF m True]] show ?thesis
      by (simp add: fieldNames_def)
  next
    case False
    with pa pb k have "Fields ta = []" "Fields tb = []"
      by (simp_all add: populated_by_kind_type_def)
    then show ?thesis by (simp add: fieldNames_def)
  qed
  have i: "set (inputFieldNames ta) \<union> set (inputFieldNames tb) \<subseteq> set (inputFieldNames t)"
  proof (cases "ty_Kind ta = ''INPUT_OBJECT''")
    case True
    from mergeInputFields_union [OF mergeTypes_InputFields [OF m True]] show ?thesis
      by (simp add: inputFieldNames_def)
  next
    case False
    with pa pb k have "InputFields ta = []" "InputFields tb = []"
      by (simp_all add: populated_by_kind_type_def)
    then show ?thesis by (simp add: inputFieldNames_def)
  qed
  have e: "set (enumValueNames ta) \<union> set (enumValueNames tb) \<subseteq> set (enumValueNames t)"
  proof (cases "ty_Kind ta = ''ENUM''")
    case True
    from mergeEnumValues_union [OF mergeTypes_EnumValues [OF m True]] show ?thesis
      by (simp add: enumValueNames_def)
  next
    case False
    with pa pb k have "EnumValues ta = []" "EnumValues tb = []"
      by (simp_all add: populated_by_kind_type_def)
    then show ?thesis by (simp add: enumValueNames_def)
  qed
  have p: "set (possibleTypeNames ta) \<union> set (possibleTypeNames tb) \<subseteq> set (possibleTypeNames t)"
  proof (cases "ty_Kind ta = ''UNION''")
    case True
    from mergePossibleTypes_union [OF mergeTypes_PossibleTypes [OF m True]] show ?thesis
      by (simp add: possibleTypeNames_def)
  next
    case False
    with pa pb k have "PossibleTypes ta = []" "PossibleTypes tb = []"
      by (simp_all add: populated_by_kind_type_def)
    then show ?thesis by (simp add: possibleTypeNames_def ref_names_def)
  qed
  from f i e p show ?thesis by blast
qed

lemma mergeTypes_commute:
  assumes m1: "mergeTypes ta tb mode = Inr t1" and m2: "mergeTypes tb ta mode = Inr t2"
    and n: "ty_Name tb = ty_Name ta"
    and da: "distinct_members ta" and db: "distinct_members tb"
  shows "type_shape t1 = type_shape t2"
proof -
  note k = mergeTypes_kinds [OF m1]
  have nm: "ty_Name t1 = ty_Name t2"
    using mergeTypes_Name [OF m1] mergeTypes_Name [OF m2] n by simp
  have kd: "ty_Kind t1 = ty_Kind t2"
    using mergeTypes_Kind [OF m1] mergeTypes_Kind [OF m2] k by simp
  have f: "map (\<lambda>f. (fld_Name f, fld_Type f)) (Fields t1)
      = map (\<lambda>f. (fld_Name f, fld_Type f)) (Fields t2)"
  proof (cases "ty_Kind ta = ''OBJECT''")
    case True
    with k have kb: "ty_Kind tb = ''OBJECT''" by simp
    from mergeFields_commute [OF mergeTypes_Fields [OF m1 True] mergeTypes_Fields [OF m2 kb]]
      da db show ?thesis
      by (simp add: fieldNames_def distinct_members_def)
  next
    case False
    with k have kb: "ty_Kind tb \<noteq> ''OBJECT''" by simp
    from mergeTypes_Fields_empty [OF m1 False] mergeTypes_Fields_empty [OF m2 kb]
    show ?thesis by simp
  qed
  have i: "InputFields t1 = InputFields t2"
  proof (cases "ty_Kind ta = ''INPUT_OBJECT''")
    case True
    with k have kb: "ty_Kind tb = ''INPUT_OBJECT''" by simp
    from mergeInputFields_commute
      [OF mergeTypes_InputFields [OF m1 True] mergeTypes_InputFields [OF m2 kb]]
      da db show ?thesis
      by (simp add: inputFieldNames_def distinct_members_def)
  next
    case False
    with k have kb: "ty_Kind tb \<noteq> ''INPUT_OBJECT''" by simp
    from mergeTypes_InputFields_empty [OF m1 False] mergeTypes_InputFields_empty [OF m2 kb]
    show ?thesis by simp
  qed
  have e: "enumValueNames t1 = enumValueNames t2"
  proof (cases "ty_Kind ta = ''ENUM''")
    case True
    with k have kb: "ty_Kind tb = ''ENUM''" by simp
    from mergeEnumValues_commute
      [OF mergeTypes_EnumValues [OF m1 True] mergeTypes_EnumValues [OF m2 kb]]
      da db show ?thesis
      by (simp add: enumValueNames_def distinct_members_def)
  next
    case False
    with k have kb: "ty_Kind tb \<noteq> ''ENUM''" by simp
    from mergeTypes_EnumValues_empty [OF m1 False] mergeTypes_EnumValues_empty [OF m2 kb]
    show ?thesis by (simp add: enumValueNames_def)
  qed
  have p: "possibleTypeNames t1 = possibleTypeNames t2"
  proof (cases "ty_Kind ta = ''UNION''")
    case True
    with k have kb: "ty_Kind tb = ''UNION''" by simp
    from mergePossibleTypes_commute
      [OF mergeTypes_PossibleTypes [OF m1 True] mergeTypes_PossibleTypes [OF m2 kb]]
      da db show ?thesis
      by (simp add: possibleTypeNames_def distinct_members_def)
  next
    case False
    with k have kb: "ty_Kind tb \<noteq> ''UNION''" by simp
    from mergeTypes_PossibleTypes_empty [OF m1 False] mergeTypes_PossibleTypes_empty [OF m2 kb]
    show ?thesis by (simp add: possibleTypeNames_def)
  qed
  from nm kd f i e p show ?thesis by (simp add: type_shape_def)
qed

section \<open>Properties of mergeSchemas\<close>

lemma mergeSchemas_Some:
  assumes "mergeSchemas (Some a) (Some b) mode = Inr (Some m)"
  shows "merge_by_name ty_Name (mergeSchemas_body mode) (Types (Schema a)) (Types (Schema b))
     = Inr (Types (Schema m))"
  using assms by (auto simp: mergeSchemas_def split: sum.splits)

lemma member_names_mem:
  "(n, x) \<in> set (member_names sel s) \<longleftrightarrow>
     (\<exists>t \<in> set (Types (Schema s)). ty_Name t = n \<and> x \<in> set (sel t))"
  by (auto simp: member_names_def)

lemma member_names_subset:
  assumes "\<And>t. t \<in> set (Types (Schema m)) \<Longrightarrow>
      \<exists>t' \<in> set (Types (Schema s)). ty_Name t' = ty_Name t \<and> set (sel t) \<subseteq> set (sel t')"
  shows "set (member_names sel m) \<subseteq> set (member_names sel s)"
proof
  fix p assume p: "p \<in> set (member_names sel m)"
  obtain n x where nx: "p = (n, x)" by (cases p)
  with p obtain t where t: "t \<in> set (Types (Schema m))" "ty_Name t = n" "x \<in> set (sel t)"
    by (auto simp: member_names_mem)
  from assms [OF t(1)] obtain t' where
    "t' \<in> set (Types (Schema s))" "ty_Name t' = ty_Name t" "set (sel t) \<subseteq> set (sel t')"
    by blast
  with t nx show "p \<in> set (member_names sel s)"
    by (auto simp: member_names_mem)
qed

lemma names_withinI:
  assumes "\<And>t. t \<in> set (Types (Schema m)) \<Longrightarrow>
      \<exists>t' \<in> set (Types (Schema s)). ty_Name t' = ty_Name t \<and>
        set (fieldNames t) \<subseteq> set (fieldNames t') \<and>
        set (inputFieldNames t) \<subseteq> set (inputFieldNames t') \<and>
        set (enumValueNames t) \<subseteq> set (enumValueNames t') \<and>
        set (possibleTypeNames t) \<subseteq> set (possibleTypeNames t')"
  shows "names_within m s"
proof -
  have ex: "\<exists>t' \<in> set (Types (Schema s)). ty_Name t' = ty_Name t \<and> P t'"
    if t: "t \<in> set (Types (Schema m))"
      and P: "\<And>t'. set (fieldNames t) \<subseteq> set (fieldNames t') \<Longrightarrow>
        set (inputFieldNames t) \<subseteq> set (inputFieldNames t') \<Longrightarrow>
        set (enumValueNames t) \<subseteq> set (enumValueNames t') \<Longrightarrow>
        set (possibleTypeNames t) \<subseteq> set (possibleTypeNames t') \<Longrightarrow> P t'"
    for t P
  proof -
    from assms [OF t] obtain t' where t': "t' \<in> set (Types (Schema s))" "ty_Name t' = ty_Name t"
      "set (fieldNames t) \<subseteq> set (fieldNames t')"
      "set (inputFieldNames t) \<subseteq> set (inputFieldNames t')"
      "set (enumValueNames t) \<subseteq> set (enumValueNames t')"
      "set (possibleTypeNames t) \<subseteq> set (possibleTypeNames t')"
      by blast
    from P [OF t'(3-6)] t'(1,2) show ?thesis by blast
  qed
  have "set (type_names m) \<subseteq> set (type_names s)"
  proof
    fix n assume "n \<in> set (type_names m)"
    then obtain t where t: "t \<in> set (Types (Schema m))" "n = ty_Name t"
      by (auto simp: type_names_def)
    from ex [OF t(1), of "\<lambda>_. True"] obtain t' where
      t': "t' \<in> set (Types (Schema s))" "ty_Name t' = ty_Name t" by blast
    from t'(1) have "ty_Name t' \<in> ty_Name ` set (Types (Schema s))" by (rule imageI)
    with t'(2) t(2) show "n \<in> set (type_names s)" by (simp add: type_names_def)
  qed
  moreover have "set (member_names fieldNames m) \<subseteq> set (member_names fieldNames s)"
    by (rule member_names_subset) (rule ex)
  moreover have "set (member_names inputFieldNames m) \<subseteq> set (member_names inputFieldNames s)"
    by (rule member_names_subset) (rule ex)
  moreover have "set (member_names enumValueNames m) \<subseteq> set (member_names enumValueNames s)"
    by (rule member_names_subset) (rule ex)
  moreover have "set (member_names possibleTypeNames m) \<subseteq> set (member_names possibleTypeNames s)"
    by (rule member_names_subset) (rule ex)
  ultimately show ?thesis by (simp add: names_within_def)
qed

lemma distinct_member_namesD:
  "distinct_member_names s \<Longrightarrow> t \<in> set (Types (Schema s)) \<Longrightarrow> distinct_members t"
  by (simp add: distinct_member_names_def list_all_iff)

lemma populated_by_kindD:
  "populated_by_kind s \<Longrightarrow> t \<in> set (Types (Schema s)) \<Longrightarrow> populated_by_kind_type t"
  by (simp add: populated_by_kind_def list_all_iff)

text \<open>In any mode but union, a merged type is the merge of a type of each side.\<close>

lemma mergeSchemas_inter_origin:
  assumes m: "mergeSchemas (Some a) (Some b) mode = Inr (Some m)" and mode: "mode \<noteq> Union_mode"
    and da: "distinct_type_names a" and db: "distinct_type_names b"
    and t: "t \<in> set (Types (Schema m))"
  shows "\<exists>ta \<in> set (Types (Schema a)). \<exists>tb \<in> set (Types (Schema b)).
           ty_Name tb = ty_Name ta \<and> mergeTypes ta tb mode = Inr t"
proof -
  from da db have d: "distinct (map ty_Name (Types (Schema a)))"
    "distinct (map ty_Name (Types (Schema b)))"
    by (simp_all add: distinct_type_names_def type_names_def)
  from merge_by_name_from_pair [OF mergeSchemas_Some [OF m] d _ t]
    mergeSchemas_body_single [OF mode]
  obtain ta tb xs where p: "ta \<in> set (Types (Schema a))" "tb \<in> set (Types (Schema b))"
    "ty_Name tb = ty_Name ta"
    and b: "mergeSchemas_body mode (ty_Name ta) [ta, tb] = Inr xs" and xs: "t \<in> set xs"
    by blast
  from mergeSchemas_body_pair [OF b] xs have "mergeTypes ta tb mode = Inr t" by auto
  with p show ?thesis by blast
qed

text \<open>
  Claim C3, amended. For schemas in which no type name is repeated and no type repeats a
  member name: every type name and every field, input field, enum value and possible type
  name of an intersection merge is present, under the same type name, in both schemas.
\<close>

theorem mergeSchemas_Intersection_subset:
  assumes m: "mergeSchemas (Some a) (Some b) Intersection = Inr (Some m)"
    and da: "distinct_type_names a" and db: "distinct_type_names b"
    and ma: "distinct_member_names a" and mb: "distinct_member_names b"
  shows "names_within m a \<and> names_within m b"
proof -
  have origin: "(\<exists>ta \<in> set (Types (Schema a)). ty_Name ta = ty_Name t \<and>
        set (fieldNames t) \<subseteq> set (fieldNames ta) \<and>
        set (inputFieldNames t) \<subseteq> set (inputFieldNames ta) \<and>
        set (enumValueNames t) \<subseteq> set (enumValueNames ta) \<and>
        set (possibleTypeNames t) \<subseteq> set (possibleTypeNames ta)) \<and>
      (\<exists>tb \<in> set (Types (Schema b)). ty_Name tb = ty_Name t \<and>
        set (fieldNames t) \<subseteq> set (fieldNames tb) \<and>
        set (inputFieldNames t) \<subseteq> set (inputFieldNames tb) \<and>
        set (enumValueNames t) \<subseteq> set (enumValueNames tb) \<and>
        set (possibleTypeNames t) \<subseteq> set (possibleTypeNames tb))"
    if t: "t \<in> set (Types (Schema m))" for t
  proof -
    from mergeSchemas_inter_origin [OF m Intersection_not_Union da db t]
    obtain ta tb where p: "ta \<in> set (Types (Schema a))" "tb \<in> set (Types (Schema b))"
      "ty_Name tb = ty_Name ta" and mt: "mergeTypes ta tb Intersection = Inr t"
      by blast
    note i = mergeTypes_inter [OF mt Intersection_not_Union
        distinct_member_namesD [OF ma p(1)] distinct_member_namesD [OF mb p(2)]]
    from i have ia: "set (fieldNames t) \<subseteq> set (fieldNames ta)"
      "set (inputFieldNames t) \<subseteq> set (inputFieldNames ta)"
      "set (enumValueNames t) \<subseteq> set (enumValueNames ta)"
      "set (possibleTypeNames t) \<subseteq> set (possibleTypeNames ta)"
      by simp_all
    from i have ib: "set (fieldNames t) \<subseteq> set (fieldNames tb)"
      "set (inputFieldNames t) \<subseteq> set (inputFieldNames tb)"
      "set (enumValueNames t) \<subseteq> set (enumValueNames tb)"
      "set (possibleTypeNames t) \<subseteq> set (possibleTypeNames tb)"
      by simp_all
    from mergeTypes_Name [OF mt] p(3) have n: "ty_Name ta = ty_Name t" "ty_Name tb = ty_Name t"
      by simp_all
    show ?thesis
      by (intro conjI bexI [of _ ta] bexI [of _ tb]) (fact n ia ib p)+
  qed
  have "names_within m a"
    by (rule names_withinI) (rule origin [THEN conjunct1])
  moreover have "names_within m b"
    by (rule names_withinI) (rule origin [THEN conjunct2])
  ultimately show ?thesis ..
qed


text \<open>In union mode every type of either side has a merged type of its name that covers it.\<close>

lemma mergeSchemas_union_target:
  assumes m: "mergeSchemas (Some a) (Some b) Union_mode = Inr (Some m)"
    and da: "distinct_type_names a" and db: "distinct_type_names b"
    and pa: "populated_by_kind a" and pb: "populated_by_kind b"
    and y: "y \<in> set (Types (Schema a) @ Types (Schema b))"
  shows "\<exists>t \<in> set (Types (Schema m)). ty_Name t = ty_Name y \<and>
      set (fieldNames y) \<subseteq> set (fieldNames t) \<and>
      set (inputFieldNames y) \<subseteq> set (inputFieldNames t) \<and>
      set (enumValueNames y) \<subseteq> set (enumValueNames t) \<and>
      set (possibleTypeNames y) \<subseteq> set (possibleTypeNames t)"
proof -
  let ?A = "Types (Schema a)" and ?B = "Types (Schema b)"
  let ?p = "filter (\<lambda>x. ty_Name x = ty_Name y) (?A @ ?B)"
  from da db have d: "distinct (map ty_Name ?A)" "distinct (map ty_Name ?B)"
    by (simp_all add: distinct_type_names_def type_names_def)
  have n: "ty_Name y \<in> ty_Name ` set (?A @ ?B)" using y by (rule imageI)
  have yp: "y \<in> set ?p" using y by simp
  from merge_by_name_part [OF mergeSchemas_Some [OF m] n] obtain xs where
    b: "mergeSchemas_body Union_mode (ty_Name y) ?p = Inr xs" and
    sub: "set xs \<subseteq> set (Types (Schema m))"
    by blast
  have single: ?thesis if p: "?p = [x]" for x
  proof -
    from yp [unfolded p] have "x = y" by simp
    with b [unfolded p] have "xs = [y]" by simp
    with sub have "y \<in> set (Types (Schema m))" by simp
    then show ?thesis by (intro bexI [of _ y] conjI) simp_all
  qed
  have pair: ?thesis if p: "?p = [xa, xb]" and xa: "xa \<in> set ?A" and xb: "xb \<in> set ?B"
    and na: "ty_Name xa = ty_Name y" for xa xb
  proof -
    from mergeSchemas_body_pair [OF b [unfolded p]]
    obtain t where mt: "mergeTypes xa xb Union_mode = Inr t" and xs: "xs = [t]" by auto
    from xs sub have t: "t \<in> set (Types (Schema m))" by simp
    note u = mergeTypes_union [OF mt populated_by_kindD [OF pa xa] populated_by_kindD [OF pb xb]]
    from yp [unfolded p] have "y = xa \<or> y = xb" by auto
    with u have "set (fieldNames y) \<subseteq> set (fieldNames t)"
      "set (inputFieldNames y) \<subseteq> set (inputFieldNames t)"
      "set (enumValueNames y) \<subseteq> set (enumValueNames t)"
      "set (possibleTypeNames y) \<subseteq> set (possibleTypeNames t)"
      by auto
    moreover from mergeTypes_Name [OF mt] na have "ty_Name t = ty_Name y" by simp
    ultimately show ?thesis using t by (intro bexI [of _ t] conjI)
  qed
  from occurrences_cases [OF d n] show ?thesis
  proof (elim disjE bexE conjE)
    fix xa assume "?p = [xa]"
    then show ?thesis by (rule single)
  next
    fix xb assume "?p = [xb]"
    then show ?thesis by (rule single)
  next
    fix xa xb
    assume "xa \<in> set ?A" "xb \<in> set ?B" "ty_Name xa = ty_Name y" "?p = [xa, xb]"
    then show ?thesis by (intro pair [of xa xb])
  qed
qed

text \<open>
  Claim C6, amended. After a successful union merge every top-level type name of either
  schema is a type name of the result. When no type name is repeated within a schema and
  every type populates only the collection of its kind, every field, input field, enum value
  and possible type name of a type of either schema is present in the merged type of the
  same name.
\<close>

theorem mergeSchemas_Union_superset:
  assumes m: "mergeSchemas (Some a) (Some b) Union_mode = Inr (Some m)"
  shows "set (type_names a) \<union> set (type_names b) \<subseteq> set (type_names m) \<and>
     (distinct_type_names a \<and> distinct_type_names b \<and>
      populated_by_kind a \<and> populated_by_kind b \<longrightarrow>
        names_within a m \<and> names_within b m)"
proof -
  have tn: "set (type_names a) \<union> set (type_names b) \<subseteq> set (type_names m)"
  proof -
    have "ty_Name y \<in> ty_Name ` set (Types (Schema m))"
      if y: "y \<in> set (Types (Schema a) @ Types (Schema b))" for y
    proof (rule merge_by_name_keeps_names [where body = "mergeSchemas_body Union_mode"
          and nm = ty_Name and nm' = ty_Name
          and a = "Types (Schema a)" and b = "Types (Schema b)"])
      show "merge_by_name ty_Name (mergeSchemas_body Union_mode) (Types (Schema a))
          (Types (Schema b)) = Inr (Types (Schema m))"
        by (rule mergeSchemas_Some [OF m])
      show "y \<in> set (Types (Schema a) @ Types (Schema b))" by (rule y)
    qed (rule mergeSchemas_body_keeps)
    then show ?thesis by (auto simp: type_names_def)
  qed
  have members: "names_within a m \<and> names_within b m"
    if h: "distinct_type_names a \<and> distinct_type_names b \<and>
      populated_by_kind a \<and> populated_by_kind b"
  proof -
    from h have da: "distinct_type_names a" and db: "distinct_type_names b"
      and pa: "populated_by_kind a" and pb: "populated_by_kind b" by simp_all
    note target = mergeSchemas_union_target [OF m da db pa pb]
    have "names_within a m"
      by (rule names_withinI) (rule target, simp)
    moreover have "names_within b m"
      by (rule names_withinI) (rule target, simp)
    ultimately show ?thesis ..
  qed
  from tn members show ?thesis by blast
qed

text \<open>
  Claim C8, amended. For schemas in which no type name is repeated and no type repeats a
  member name, and in either mode: when the merges in both orders succeed, the two results
  list the same type names in the same sorted order, and the types of one name have the same
  kind, the same field names and input field names with equal merged type references, the
  same enum value names and the same possible type names.
\<close>

theorem mergeSchemas_commute:
  assumes m1: "mergeSchemas (Some a) (Some b) mode = Inr (Some m1)"
    and m2: "mergeSchemas (Some b) (Some a) mode = Inr (Some m2)"
    and da: "distinct_type_names a" and db: "distinct_type_names b"
    and ma: "distinct_member_names a" and mb: "distinct_member_names b"
  shows "same_shape m1 m2"
  unfolding same_shape_def
proof (rule merge_by_name_commute [OF mergeSchemas_Some [OF m1] mergeSchemas_Some [OF m2]])
  show "distinct (map ty_Name (Types (Schema a)))"
    using da by (simp add: distinct_type_names_def type_names_def)
  show "distinct (map ty_Name (Types (Schema b)))"
    using db by (simp add: distinct_type_names_def type_names_def)
next
  fix n x y xs xs'
  assume x: "x \<in> set (Types (Schema a))" and y: "y \<in> set (Types (Schema b))"
    and n: "ty_Name x = n" "ty_Name y = n"
    and b1: "mergeSchemas_body mode n [x, y] = Inr xs"
    and b2: "mergeSchemas_body mode n [y, x] = Inr xs'"
  from mergeSchemas_body_pair [OF b1] obtain t1 where
    t1: "mergeTypes x y mode = Inr t1" "xs = [t1]" by blast
  from mergeSchemas_body_pair [OF b2] obtain t2 where
    t2: "mergeTypes y x mode = Inr t2" "xs' = [t2]" by blast
  from n have "ty_Name y = ty_Name x" by simp
  from mergeTypes_commute [OF t1(1) t2(1) this
      distinct_member_namesD [OF ma x] distinct_member_namesD [OF mb y]]
  show "map type_shape xs = map type_shape xs'"
    using t1(2) t2(2) by simp
qed


lemma ex_query_inter_eq:
  "mergeSchemas (Some ex_query_a) (Some ex_query_b) Intersection = Inr (Some ex_query_inter)"
  by code_simp

lemma ex_query_union_eq:
  "mergeSchemas (Some ex_query_a) (Some ex_query_b) Union_mode = Inr (Some ex_query_union)"
  by code_simp

lemma ex_query_distinct:
  "distinct_type_names ex_query_a" "distinct_type_names ex_query_b"
  "distinct_member_names ex_query_a" "distinct_member_names ex_query_b"
  "populated_by_kind ex_query_a" "populated_by_kind ex_query_b"
  by code_simp+

text \<open>
  The claims as stated, for all schemas, fail on repeated names: the loop merges the first
  two occurrences of a name wherever they come from.
\<close>

theorem mergeSchemas_Intersection_subset_counterexample:
  "mergeSchemas (Some ex_dup_a) (Some (mk_schema [])) Intersection
     = Inr (Some (mk_schema [scalarType ''X''])) \<and>
   ''X'' \<in> set (type_names (mk_schema [scalarType ''X''])) \<and>
   ''X'' \<notin> set (type_names (mk_schema [])) \<and>
   \<not> names_within (mk_schema [scalarType ''X'']) (mk_schema []) \<and>
   mergeSchemas (Some ex_dup_field_a) (Some (mk_schema [objectType ''X'' []])) Intersection
     = Inr (Some (mk_schema [objectType ''X'' [mk_field ''f'' tInt []]])) \<and>
   (''X'', ''f'') \<in> set (member_names fieldNames
      (mk_schema [objectType ''X'' [mk_field ''f'' tInt []]])) \<and>
   (''X'', ''f'') \<notin> set (member_names fieldNames (mk_schema [objectType ''X'' []]))"
  by code_simp

theorem mergeSchemas_Intersection_subset_witness:
  "mergeSchemas (Some ex_query_a) (Some ex_query_b) Intersection = Inr (Some ex_query_inter) \<and>
   distinct_type_names ex_query_a \<and> distinct_type_names ex_query_b \<and>
   distinct_member_names ex_query_a \<and> distinct_member_names ex_query_b \<and>
   names_within ex_query_inter ex_query_a \<and> names_within ex_query_inter ex_query_b"
  using mergeSchemas_Intersection_subset [OF ex_query_inter_eq ex_query_distinct(1-4)]
    ex_query_inter_eq ex_query_distinct(1-4)
  by simp

theorem mergeSchemas_Union_superset_counterexample:
  "mergeSchemas (Some ex_dup_obj_a) (Some ex_dup_obj_b) Union_mode
     = Inr (Some (mk_schema [objectType ''X'' [mk_field ''f'' tInt [], mk_field ''g'' tInt []]])) \<and>
   (''X'', ''h'') \<in> set (member_names fieldNames ex_dup_obj_b) \<and>
   (''X'', ''h'') \<notin> set (member_names fieldNames
      (mk_schema [objectType ''X'' [mk_field ''f'' tInt [], mk_field ''g'' tInt []]])) \<and>
   mergeSchemas (Some ex_scalar_with_field) (Some (mk_schema [scalarType ''S''])) Union_mode
     = Inr (Some (mk_schema [scalarType ''S''])) \<and>
   (''S'', ''f'') \<in> set (member_names fieldNames ex_scalar_with_field) \<and>
   (''S'', ''f'') \<notin> set (member_names fieldNames (mk_schema [scalarType ''S'']))"
  by code_simp

theorem mergeSchemas_Union_superset_witness:
  "mergeSchemas (Some ex_query_a) (Some ex_query_b) Union_mode = Inr (Some ex_query_union) \<and>
   distinct_type_names ex_query_a \<and> distinct_type_names ex_query_b \<and>
   populated_by_kind ex_query_a \<and> populated_by_kind ex_query_b \<and>
   set (type_names ex_query_a) \<union> set (type_names ex_query_b) \<subseteq> set (type_names ex_query_union) \<and>
   names_within ex_query_a ex_query_union \<and> names_within ex_query_b ex_query_union"
  using mergeSchemas_Union_superset [OF ex_query_union_eq]
    ex_query_union_eq ex_query_distinct
  by simp

theorem mergeSchemas_commute_counterexample:
  "mergeSchemas (Some ex_dup_obj_a) (Some ex_dup_obj_b) Union_mode
     = Inr (Some (mk_schema [objectType ''X'' [mk_field ''f'' tInt [], mk_field ''g'' tInt []]])) \<and>
   mergeSchemas (Some ex_dup_obj_b) (Some ex_dup_obj_a) Union_mode
     = Inr (Some (mk_schema [objectType ''X'' [mk_field ''f'' tInt [], mk_field ''h'' tInt []]])) \<and>
   set (fieldNames (objectType ''X'' [mk_field ''f'' tInt [], mk_field ''g'' tInt []]))
     \<noteq> set (fieldNames (objectType ''X'' [mk_field ''f'' tInt [], mk_field ''h'' tInt []])) \<and>
   mergeSchemas (Some ex_dup_in_a) (Some ex_dup_in_b) Union_mode
     = Inr (Some (mk_schema [inputObjectType ''In''
           [\<lparr>in_Name = ''x'', in_Type = tNonNull tInt\<rparr>]])) \<and>
   mergeSchemas (Some ex_dup_in_b) (Some ex_dup_in_a) Union_mode
     = Inr (Some (mk_schema [inputObjectType ''In'' [\<lparr>in_Name = ''x'', in_Type = tInt\<rparr>]])) \<and>
   tNonNull tInt \<noteq> tInt"
  by code_simp

lemma ex_shape_eq:
  "mergeSchemas (Some ex_shape_a) (Some ex_shape_b) Intersection = Inr (Some ex_shape_ab)"
  "mergeSchemas (Some ex_shape_b) (Some ex_shape_a) Intersection = Inr (Some ex_shape_ba)"
  by code_simp+

lemma ex_shape_distinct:
  "distinct_type_names ex_shape_a" "distinct_type_names ex_shape_b"
  "distinct_member_names ex_shape_a" "distinct_member_names ex_shape_b"
  by code_simp+

theorem mergeSchemas_commute_witness:
  "mergeSchemas (Some ex_shape_a) (Some ex_shape_b) Intersection = Inr (Some ex_shape_ab) \<and>
   mergeSchemas (Some ex_shape_b) (Some ex_shape_a) Intersection = Inr (Some ex_shape_ba) \<and>
   distinct_type_names ex_shape_a \<and> distinct_type_names ex_shape_b \<and>
   distinct_member_names ex_shape_a \<and> distinct_member_names ex_shape_b \<and>
   same_shape ex_shape_ab ex_shape_ba \<and> ex_shape_ab \<noteq> ex_shape_ba"
proof -
  have "ex_shape_ab \<noteq> ex_shape_ba" by code_simp
  with mergeSchemas_commute [OF ex_shape_eq ex_shape_distinct] ex_shape_eq ex_shape_distinct
  show ?thesis by simp
qed

section \<open>Properties of the reactive executor\<close>

lemma sint_Minute: "sint Minute = 60000000000"
  by (simp add: Minute_def)

lemma sint_double:
  fixes x :: "64 word"
  assumes "- (2 ^ 62) \<le> sint x" "sint x < 2 ^ 62"
  shows "sint (x * 2) = 2 * sint x"
proof -
  have "sint (x * 2) = signed_take_bit 63 (sint x * sint (2 :: 64 word))"
    by (simp add: sint_word_ariths)
  also have "sint (2 :: 64 word) = 2" by simp
  also have "signed_take_bit 63 (sint x * 2) = sint x * 2"
    using assms by (intro signed_take_bit_int_eq_self) simp_all
  finally show ?thesis by simp
qed

lemma Rerunner_run_gate:
  "cancelled r \<and> done_first \<or> stop r \<Longrightarrow> Rerunner_run f done_first now (r, w) = Some (r, w)"
  by (auto simp: Rerunner_run_def)

lemma run_Inl:
  "f (c\<lparr>computationKey := Some (next_node w)\<rparr>) (snd (new_node w)) = Some (Inl err, w2) \<Longrightarrow>
   run c f w = Some (Inl err, go (ReleaseTask (next_node w)) w2)"
  by (simp add: run_def new_node_def)

lemma run_Inr:
  "f (c\<lparr>computationKey := Some (next_node w)\<rparr>) (snd (new_node w)) = Some (Inr v, w2) \<Longrightarrow>
   run c f w = Some (Inr \<lparr>comp_node = next_node w, comp_value = v\<rparr>, w2)"
  by (simp add: run_def new_node_def)

lemma run_None:
  "f (c\<lparr>computationKey := Some (next_node w)\<rparr>) (snd (new_node w)) = None \<Longrightarrow>
   run c f w = None"
  by (simp add: run_def new_node_def)

lemma Rerunner_run_retry:
  assumes "\<not> (cancelled r \<and> done_first)" "\<not> stop r"
    and "run \<lparr>computationKey = None, cacheKey = True\<rparr> f (cleanInvalidated w)
          = Some (Inl RetrySentinelError, w2)"
  shows "Rerunner_run f done_first now (r, w) =
     Some (r\<lparr>lastRun := now,
              retryDelay := (if Minute <s retryDelay r * 2 then Minute else retryDelay r * 2)\<rparr>,
           go RunTask w2)"
  using assms by (auto simp: Rerunner_run_def Let_def)

lemma Rerunner_run_fatal:
  assumes "\<not> (cancelled r \<and> done_first)" "\<not> stop r"
    and "run \<lparr>computationKey = None, cacheKey = True\<rparr> f (cleanInvalidated w)
          = Some (Inl (OtherError e), w2)"
  shows "Rerunner_run f done_first now (r, w) = Some (r\<lparr>lastRun := now\<rparr>, w2)"
  using assms by (auto simp: Rerunner_run_def Let_def)

lemma Rerunner_run_success:
  assumes "\<not> (cancelled r \<and> done_first)" "\<not> stop r"
    and "run \<lparr>computationKey = None, cacheKey = True\<rparr> f (cleanInvalidated w)
          = Some (Inr new, w2)"
  shows "Rerunner_run f done_first now (r, w) =
     Some (r\<lparr>lastRun := now, computation := Some new, retryDelay := minRerunInterval r\<rparr>,
           handleInvalidate (comp_node new) RunTask
             (case computation r of None \<Rightarrow> w2
              | Some old \<Rightarrow> go (ReleaseTask (comp_node old)) w2))"
  using assms by (auto simp: Rerunner_run_def Let_def)

text \<open>
  Claim C5, amended. A run of the executor whose computation returns the retry sentinel
  leaves \<open>retryDelay\<close> at no more than 60 seconds; when twice the previous value fits in an
  \<^verbatim>\<open>int64\<close> (the previous value lies in \<open>[-2^62, 2^62)\<close> nanoseconds) the new value is the
  minimum of twice the previous value and 60 seconds. A run whose computation succeeds
  resets \<open>retryDelay\<close> to \<open>minRerunInterval\<close>.
\<close>

theorem Rerunner_run_retryDelay:
  assumes ran: "\<not> (cancelled r \<and> done_first)" "\<not> stop r"
    and f: "f \<lparr>computationKey = Some (next_node w), cacheKey = True\<rparr>
              (snd (new_node (cleanInvalidated w))) = Some (outcome, w2)"
    and out: "Rerunner_run f done_first now (r, w) = Some (r', w')"
  shows "(outcome = Inl RetrySentinelError \<longrightarrow>
            sint (retryDelay r') \<le> 60000000000 \<and>
            (- (2 ^ 62) \<le> sint (retryDelay r) \<and> sint (retryDelay r) < 2 ^ 62 \<longrightarrow>
               sint (retryDelay r') = min (2 * sint (retryDelay r)) 60000000000)) \<and>
         ((\<exists>v. outcome = Inr v) \<longrightarrow> retryDelay r' = minRerunInterval r)"
proof -
  have nn: "next_node (cleanInvalidated w) = next_node w"
    by (simp add: cleanInvalidated_def)
  have f': "f (\<lparr>computationKey = None, cacheKey = True\<rparr>
        \<lparr>computationKey := Some (next_node (cleanInvalidated w))\<rparr>)
      (snd (new_node (cleanInvalidated w))) = Some (outcome, w2)"
    using f by (simp add: nn)
  have retry: "sint (retryDelay r') \<le> 60000000000 \<and>
      (- (2 ^ 62) \<le> sint (retryDelay r) \<and> sint (retryDelay r) < 2 ^ 62 \<longrightarrow>
         sint (retryDelay r') = min (2 * sint (retryDelay r)) 60000000000)"
    if o: "outcome = Inl RetrySentinelError"
  proof -
    let ?d = "retryDelay r * 2"
    have "run \<lparr>computationKey = None, cacheKey = True\<rparr> f (cleanInvalidated w)
        = Some (Inl RetrySentinelError, go (ReleaseTask (next_node (cleanInvalidated w))) w2)"
      using f' o by (intro run_Inl) simp
    from Rerunner_run_retry [OF ran this, of now] out
    have r': "retryDelay r' = (if Minute <s ?d then Minute else ?d)" by auto
    have bound: "sint (retryDelay r') \<le> 60000000000"
      using r' by (auto simp: word_sless_alt sint_Minute)
    have exact: "sint (retryDelay r') = min (2 * sint (retryDelay r)) 60000000000"
      if "- (2 ^ 62) \<le> sint (retryDelay r) \<and> sint (retryDelay r) < 2 ^ 62"
      using r' sint_double [of "retryDelay r"] that
      by (auto simp: word_sless_alt sint_Minute)
    from bound exact show ?thesis by blast
  qed
  have success: "retryDelay r' = minRerunInterval r" if o: "\<exists>v. outcome = Inr v"
  proof -
    from o obtain v where v: "outcome = Inr v" by blast
    have "run \<lparr>computationKey = None, cacheKey = True\<rparr> f (cleanInvalidated w)
        = Some (Inr \<lparr>comp_node = next_node (cleanInvalidated w), comp_value = v\<rparr>, w2)"
      using f' v by (intro run_Inr) simp
    from Rerunner_run_success [OF ran this, of now] out
    show ?thesis by auto
  qed
  from retry success show ?thesis by blast
qed

text \<open>
  \<^verbatim>\<open>r.retryDelay * 2\<close> is an \<^verbatim>\<open>int64\<close> multiplication: from \<open>2^62\<close> nanoseconds it wraps to
  \<open>-2^63\<close>, which is not above a minute and is what \<open>retryDelay\<close> becomes, not 60 seconds.
\<close>

theorem Rerunner_run_retryDelay_counterexample:
  "map_option (\<lambda>(r', w'). sint (retryDelay r'))
     (Rerunner_run always_retry False 1 (NewRerunner 4611686018427387904 world0))
   = Some (- 9223372036854775808) \<and>
   min (2 * sint (4611686018427387904 :: 64 word)) 60000000000 = 60000000000"
  by (simp add: Rerunner_run_def NewRerunner_def run_def new_node_def always_retry_def world0_def
      cleanInvalidated_def go_def Minute_def word_sless_alt)

theorem Rerunner_run_retryDelay_witness:
  "\<not> stop (fst (NewRerunner 10000000 world0)) \<and>
   - (2 ^ 62) \<le> sint (retryDelay (fst (NewRerunner 10000000 world0))) \<and>
   sint (retryDelay (fst (NewRerunner 10000000 world0))) < 2 ^ 62 \<and>
   (\<exists>r' w'. Rerunner_run always_retry False 1 (NewRerunner 10000000 world0) = Some (r', w') \<and>
      sint (retryDelay r') = 20000000 \<and>
      (\<exists>r'' w''. Rerunner_run always_ok False 2 (r', w') = Some (r'', w'') \<and>
         retryDelay r'' = 10000000))"
proof -
  obtain r0 w0 where R0: "NewRerunner 10000000 world0 = (r0, w0)"
    by (cases "NewRerunner 10000000 world0")
  from R0 have r0: "\<not> cancelled r0" "\<not> stop r0" "retryDelay r0 = 10000000"
    "minRerunInterval r0 = 10000000"
    by (auto simp: NewRerunner_def)
  obtain r' w' where out: "Rerunner_run always_retry False 1 (r0, w0) = Some (r', w')"
    using r0 by (cases "Rerunner_run always_retry False 1 (r0, w0)")
      (auto simp: Rerunner_run_def run_def new_node_def always_retry_def Let_def)
  have f: "always_retry \<lparr>computationKey = Some (next_node w0), cacheKey = True\<rparr>
      (snd (new_node (cleanInvalidated w0)))
      = Some (Inl RetrySentinelError, snd (new_node (cleanInvalidated w0)))"
    by (simp add: always_retry_def)
  from Rerunner_run_retryDelay [OF _ r0(2) f out] r0
  have d: "sint (retryDelay r') = 20000000" by simp
  have r': "\<not> cancelled r'" "\<not> stop r'" "minRerunInterval r' = 10000000"
    using out r0 by (auto simp: Rerunner_run_def run_def new_node_def always_retry_def Let_def
        split: if_splits)
  obtain r'' w'' where out': "Rerunner_run always_ok False 2 (r', w') = Some (r'', w'')"
    using r' by (cases "Rerunner_run always_ok False 2 (r', w')")
      (auto simp: Rerunner_run_def run_def new_node_def always_ok_def Let_def)
  have f': "always_ok \<lparr>computationKey = Some (next_node w'), cacheKey = True\<rparr>
      (snd (new_node (cleanInvalidated w')))
      = Some (Inr 1, snd (new_node (cleanInvalidated w')))"
    by (simp add: always_ok_def)
  from Rerunner_run_retryDelay [OF _ r'(2) f' out'] r'
  have d': "retryDelay r'' = 10000000" by simp
  from R0 r0 out d out' d' show ?thesis by simp
qed

lemma locker_Lock_free:
  "locker w k = None \<Longrightarrow> locker_Lock k w = Some (w\<lparr>locker := (locker w)(k \<mapsto> 1)\<rparr>)"
  by (simp add: locker_Lock_def)

lemma locker_Unlock_held:
  "locker w k = Some 1 \<Longrightarrow> locker_Unlock k w = Some (w\<lparr>locker := (locker w)(k := None)\<rparr>)"
  by (simp add: locker_Unlock_def)

lemma Cache_miss_error:
  assumes c: "computationKey c = Some cur" "cacheKey c"
    and free: "locker w k = None" and miss: "computations w k = None"
    and f: "f (child_ctx c w) (entered k w) = Some (Inl err, w2)"
    and held: "locker w2 k = Some 1"
  shows "Cache c k f w =
     Some (Inl err, (go (ReleaseTask (next_node w)) w2)\<lparr>locker := (locker w2)(k := None)\<rparr>)"
proof -
  let ?w1 = "w\<lparr>locker := (locker w)(k \<mapsto> 1)\<rparr>"
  have r: "run c f ?w1 = Some (Inl err, go (ReleaseTask (next_node w)) w2)"
    using f by (simp add: run_def new_node_def child_ctx_def entered_def)
  have u: "locker_Unlock k (go (ReleaseTask (next_node w)) w2)
      = Some ((go (ReleaseTask (next_node w)) w2)\<lparr>locker := (locker w2)(k := None)\<rparr>)"
    using held by (simp add: locker_Unlock_def go_def)
  show ?thesis
    using c free miss r u
    by (simp add: Cache_def HasRerunner_def locker_Lock_def cache_get_def)
qed

lemma Cache_miss_value:
  assumes c: "computationKey c = Some cur" "cacheKey c"
    and free: "locker w k = None" and miss: "computations w k = None"
    and f: "f (child_ctx c w) (entered k w) = Some (Inr v, w2)"
    and held: "locker w2 k = Some 1"
  shows "\<exists>w'. Cache c k f w = Some (Inr v, w')"
proof -
  let ?w1 = "w\<lparr>locker := (locker w)(k \<mapsto> 1)\<rparr>"
  let ?child = "\<lparr>comp_node = next_node w, comp_value = v\<rparr>"
  have r: "run c f ?w1 = Some (Inr ?child, w2)"
    using f by (simp add: run_def new_node_def child_ctx_def entered_def)
  have l: "locker (addOut (next_node w) cur (cache_set k ?child w2)) k = Some 1"
    using held by (simp add: addOut_def cache_set_def go_def Let_def)
  from locker_Unlock_held [OF l] obtain w' where
    u: "locker_Unlock k (addOut (next_node w) cur (cache_set k ?child w2)) = Some w'"
    by blast
  show ?thesis
    using c free miss r u
    by (simp add: Cache_def HasRerunner_def locker_Lock_def cache_get_def)
qed

text \<open>
  Claim C10. In a context that carries a computation and the cache, on a key that is neither
  locked nor cached, when the function returns an error and leaves the lock entry of the key
  alone: \<open>Cache\<close> returns that error; the cache map and the nodes, with their edges, are
  as the function left them, so \<open>Cache\<close> itself stores nothing and adds no edge; the one
  goroutine it starts releases the node of the failed computation. If the function has not
  itself stored the key, the key is still absent, and a later \<open>Cache\<close> call on the key runs
  its function: it returns whatever value that function returns.
\<close>

theorem Cache_error_not_cached:
  assumes c: "computationKey c = Some cur" "cacheKey c"
    and free: "locker w k = None" and miss: "computations w k = None"
    and f: "f (child_ctx c w) (entered k w) = Some (Inl err, w2)"
    and held: "locker w2 k = Some 1"
  shows "\<exists>w3. Cache c k f w = Some (Inl err, w3) \<and>
           computations w3 = computations w2 \<and>
           nodes w3 = nodes w2 \<and>
           tasks w3 = tasks w2 @ [ReleaseTask (next_node w)] \<and>
           locker w3 k = None \<and>
           (computations w2 k = None \<longrightarrow>
              computations w3 k = None \<and>
              (\<forall>g v wg. g (child_ctx c w3) (entered k w3) = Some (Inr v, wg) \<and>
                         locker wg k = Some 1 \<longrightarrow>
                 (\<exists>w4. Cache c k g w3 = Some (Inr v, w4))))"
proof -
  let ?w3 = "(go (ReleaseTask (next_node w)) w2)\<lparr>locker := (locker w2)(k := None)\<rparr>"
  have 1: "Cache c k f w = Some (Inl err, ?w3)"
    by (rule Cache_miss_error [where f = f, OF c free miss f held])
  have 2: "computations ?w3 = computations w2" "nodes ?w3 = nodes w2"
    "tasks ?w3 = tasks w2 @ [ReleaseTask (next_node w)]" "locker ?w3 k = None"
    by (simp_all add: go_def)
  have 3: "\<exists>w4. Cache c k g ?w3 = Some (Inr v, w4)"
    if "computations w2 k = None"
      and "g (child_ctx c ?w3) (entered k ?w3) = Some (Inr v, wg) \<and> locker wg k = Some 1"
    for g v wg
    using that 2 by (intro Cache_miss_value [where f = g and w = ?w3 and v = v and ?w2.0 = wg, OF c]) simp_all
  from 1 2 3 show ?thesis by (intro exI [of _ ?w3]) auto
qed
theorem Cache_error_not_cached_witness:
  "computationKey in_run = Some 0 \<and> cacheKey in_run \<and>
   locker world1 7 = None \<and> computations world1 7 = None \<and>
   always_fail (child_ctx in_run world1) (entered 7 world1)
     = Some (Inl (OtherError ''boom''), entered 7 world1) \<and>
   locker (entered 7 world1) 7 = Some 1 \<and>
   (\<exists>w3. Cache in_run 7 always_fail world1 = Some (Inl (OtherError ''boom''), w3) \<and>
      computations w3 7 = None \<and>
      (\<exists>w4. Cache in_run 7 always_ok w3 = Some (Inr 1, w4)))"
proof -
  have c: "computationKey in_run = Some 0" "cacheKey in_run"
    by (simp_all add: in_run_def)
  have w: "locker world1 7 = None" "computations world1 7 = None"
    by (simp_all add: world1_def world0_def new_node_def)
  have f: "always_fail (child_ctx in_run world1) (entered 7 world1)
      = Some (Inl (OtherError ''boom''), entered 7 world1)"
    by (simp add: always_fail_def)
  have held: "locker (entered 7 world1) 7 = Some 1"
    by (simp add: entered_def new_node_def)
  have miss2: "computations (entered 7 world1) 7 = None"
    by (simp add: entered_def new_node_def world1_def world0_def)
  from Cache_error_not_cached [where f = always_fail, OF c w f held] miss2
  obtain w3 where w3: "Cache in_run 7 always_fail world1 = Some (Inl (OtherError ''boom''), w3)"
    "computations w3 7 = None"
    and again: "\<And>g v wg. g (child_ctx in_run w3) (entered 7 w3) = Some (Inr v, wg) \<Longrightarrow>
        locker wg 7 = Some 1 \<Longrightarrow> \<exists>w4. Cache in_run 7 g w3 = Some (Inr v, w4)"
    by blast
  have "always_ok (child_ctx in_run w3) (entered 7 w3) = Some (Inr 1, entered 7 w3)"
    by (simp add: always_ok_def)
  moreover have "locker (entered 7 w3) 7 = Some 1"
    by (simp add: entered_def new_node_def)
  ultimately have "\<exists>w4. Cache in_run 7 always_ok w3 = Some (Inr 1, w4)"
    by (rule again)
  with c w f held w3 show ?thesis by blast
qed
lemmas reactive_defs =
  Rerunner_run_def NewRerunner_def run_def new_node_def world0_def cleanInvalidated_def go_def
  Minute_def handleInvalidate_def invalidate_def Rerunner_Stop_def

section \<open>A fatal error during a re-run\<close>

text \<open>
  Claim C1, evaluated on the code. The first run stores its computation (node 0) and
  registers the re-run on that node; the node is invalidated; the re-run fails with an
  ordinary error. Afterwards no further run has been started, no handler is left on
  node 0 and invalidating node 0 again starts nothing, but \<^verbatim>\<open>r.computation\<close> is still the computation of node 0, no release of node 0 has
  been started (only the node of the failed run, node 1, is released) and \<^verbatim>\<open>r.stop\<close> is
  false. \<^verbatim>\<open>Stop\<close>, on the same state, drops the computation and starts the release of node 0.
\<close>

theorem Rerunner_run_fatal_keeps_computation:
  "map_option (\<lambda>(r2, w2). (computation r2, stop r2, tasks w2, invalidateHandlers (nodes w2 0)))
     fatal_rerun
   = Some (Some \<lparr>comp_node = 0, comp_value = 1\<rparr>, False, [RunTask, RunTask, ReleaseTask 1], []) \<and>
   map_option (\<lambda>(r2, w2). tasks (invalidate 0 w2)) fatal_rerun
   = Some [RunTask, RunTask, ReleaseTask 1] \<and>
   map_option (\<lambda>(r1, w1). case Rerunner_Stop (r1, invalidate 0 w1) of
                  (r', w') \<Rightarrow> (computation r', stop r', tasks w'))
     first_run
   = Some (None, True, [RunTask, RunTask, ReleaseTask 0])"
  by (simp add: fatal_rerun_def first_run_def fail_after_invalidation_def reactive_defs)

end
